theory Spec2Isabelle
  imports Main
begin

section \<open>fuzzion: approximate search for pairs of target sequences in reads\<close>

text \<open>
  A shallow embedding of \<^verbatim>\<open>fuzzion.cpp\<close>. The C++ \<^verbatim>\<open>int\<close> values are modelled as
  unbounded \<^typ>\<open>int\<close>: every quantity below is a length, an offset or a counter bounded
  by the length of a read or of a target sequence, so no 32-bit wrap-around is reachable.
  A character buffer is a \<^typ>\<open>string\<close> holding the characters before the terminating
  NUL; a read at any other index is the error \<open>OutOfBounds\<close>. A thrown
  \<^verbatim>\<open>std::runtime_error\<close> is the error \<open>RuntimeError\<close> with its message, and the
  \<^verbatim>\<open>std::out_of_range\<close> of \<^verbatim>\<open>std::string::substr\<close> is \<open>OutOfRange\<close>.

  The arrays \<open>seqlen\<close> and \<open>seq\<close> of a \<^verbatim>\<open>Target\<close> and the vectors of strings are
  lists, read with \<open>!\<close>. The program reads them at an index below their length only: in
  the loops the index is below \<open>seqcount\<close>, which the constructor sets to their length;
  a column is read after the check for three columns; and \<open>seqlen[leftIndex]\<close> is read
  after a search has reported a match, whose index is then one of the set (see the
  properties of the searches below).
\<close>

subsection \<open>Errors and buffers\<close>

datatype error = OutOfBounds | OutOfRange | RuntimeError string

text \<open>Sequencing of fallible steps: the first error ends the computation.\<close>

definition bindE :: "error + 'a \<Rightarrow> ('a \<Rightarrow> error + 'b) \<Rightarrow> error + 'b" where
  "bindE m f = (case m of Inl e \<Rightarrow> Inl e | Inr x \<Rightarrow> f x)"

text \<open>A \<^verbatim>\<open>const char *\<close> is a buffer together with an offset into it.\<close>

type_synonym cptr = "string \<times> int"

text \<open>\<^verbatim>\<open>p[i]\<close> for a pointer \<open>p\<close>.\<close>

definition rd :: "cptr \<Rightarrow> int \<Rightarrow> error + char" where
  "rd p i = (case p of (buf, off) \<Rightarrow>
     if 0 \<le> off + i \<and> off + i < int (length buf) then Inr (buf ! nat (off + i))
     else Inl OutOfBounds)"

text \<open>\<^verbatim>\<open>MIN_TARGET_LENGTH\<close>\<close>

definition MIN_TARGET_LENGTH :: int where
  "MIN_TARGET_LENGTH = 8"

subsection \<open>Characters\<close>

text \<open>
  \<^verbatim>\<open>std::toupper\<close> and \<^verbatim>\<open>std::tolower\<close> in the default "C" locale, which the
  program never changes: only the 26 letters of ASCII are mapped, every other character,
  also one above 127, is returned as it is.
\<close>

definition toupper :: "char \<Rightarrow> char" where
  "toupper c = (if 97 \<le> (of_char c :: nat) \<and> (of_char c :: nat) \<le> 122
                then char_of ((of_char c :: nat) - 32) else c)"

definition tolower :: "char \<Rightarrow> char" where
  "tolower c = (if 65 \<le> (of_char c :: nat) \<and> (of_char c :: nat) \<le> 90
                then char_of ((of_char c :: nat) + 32) else c)"

definition toupperSequence :: "string \<Rightarrow> string" where
  "toupperSequence sequence = map toupper sequence"

text \<open>
  \<^verbatim>\<open>getDelimitedStrings\<close>: the inner loop extends \<open>value\<close> up to the next delimiter,
  the outer loop pushes it and steps over the delimiter; the result is the list of values
  appended to the vector.
\<close>

fun getDelimitedStrings_loop :: "char \<Rightarrow> string \<Rightarrow> string \<Rightarrow> string list" where
  "getDelimitedStrings_loop delimiter val [] = [val]"
| "getDelimitedStrings_loop delimiter val (c # cs) =
     (if c \<noteq> delimiter then getDelimitedStrings_loop delimiter (val @ [c]) cs
      else val # getDelimitedStrings_loop delimiter [] cs)"

definition getDelimitedStrings :: "string \<Rightarrow> char \<Rightarrow> string list" where
  "getDelimitedStrings s delimiter = getDelimitedStrings_loop delimiter [] s"

definition isACGT :: "char \<Rightarrow> bool" where
  "isACGT ch = (let ch' = toupper ch in
     ch' = CHR ''A'' \<or> ch' = CHR ''C'' \<or> ch' = CHR ''G'' \<or> ch' = CHR ''T'')"

definition isAllACGT :: "string \<Rightarrow> bool" where
  "isAllACGT sequence = list_all isACGT sequence"

subsection \<open>Target: one or more target sequences\<close>

record Target =
  want :: bool
  minseqlen :: int
  maxseqlen :: int
  seqcount :: int
  seqlen :: "int list"
  seq :: "string list"

text \<open>
  The loop of the constructor that finds the shortest and the longest length, over the
  strings after the first. The vector \<open>t\<close> of the constructor is never empty
  (\<^verbatim>\<open>getDelimitedStrings\<close> appends at least one value), so \<open>t[0]\<close> is \<open>hd t\<close>.
\<close>

fun minmax_loop :: "string list \<Rightarrow> int \<times> int \<Rightarrow> int \<times> int" where
  "minmax_loop [] (mn, mx) = (mn, mx)"
| "minmax_loop (x # xs) (mn, mx) =
     (if int (length x) < mn then minmax_loop xs (int (length x), mx)
      else if int (length x) > mx then minmax_loop xs (mn, int (length x))
      else minmax_loop xs (mn, mx))"

definition Target_ctor :: "string \<Rightarrow> error + Target" where
  "Target_ctor targetString =
     (let s0 = toupperSequence targetString;
          neg = (length s0 > 0 \<and> s0 ! 0 = CHR ''-'');
          s = (if neg then drop 1 s0 else s0);
          t = getDelimitedStrings s (CHR ''|'');
          mm = minmax_loop (tl t) (int (length (hd t)), int (length (hd t)))
      in if fst mm < MIN_TARGET_LENGTH
         then Inl (RuntimeError (''invalid sequence length in '' @ targetString))
         else (case find (\<lambda>x. \<not> isAllACGT x) t of
                 Some bad \<Rightarrow> Inl (RuntimeError (''invalid character in '' @ bad))
               | None \<Rightarrow>
                   Inr \<lparr>want = \<not> neg, minseqlen = fst mm, maxseqlen = snd mm,
                        seqcount = int (length t),
                        seqlen = map (\<lambda>x. int (length x)) t, seq = t\<rparr>))"

definition reverseSequence :: "string \<Rightarrow> string" where
  "reverseSequence sequence = rev sequence"

definition invertChar :: "char \<Rightarrow> char" where
  "invertChar c =
     (if c = CHR ''A'' then CHR ''T'' else if c = CHR ''a'' then CHR ''t''
      else if c = CHR ''T'' then CHR ''A'' else if c = CHR ''t'' then CHR ''a''
      else if c = CHR ''C'' then CHR ''G'' else if c = CHR ''c'' then CHR ''g''
      else if c = CHR ''G'' then CHR ''C'' else if c = CHR ''g'' then CHR ''c''
      else c)"

definition invertSequence :: "string \<Rightarrow> string" where
  "invertSequence sequence = map invertChar sequence"

text \<open>\<^verbatim>\<open>Target::reverseComplement\<close>: the loop over the \<open>seqcount\<close> sequences.\<close>

definition reverseComplement :: "Target \<Rightarrow> string" where
  "reverseComplement t =
     foldl (\<lambda>revcomp i.
              let temp = invertSequence (reverseSequence (seq t ! i))
              in revcomp @ (if i > 0 then ''|'' @ temp else temp))
           (if want t then '''' else ''-'')
           [0 ..< nat (seqcount t)]"

subsection \<open>Fuzzy matching\<close>

text \<open>
  \<^verbatim>\<open>isMatch\<close>, with the global \<open>maxsub\<close> as a parameter. The state of the loop is the
  index \<open>i\<close> and the counter \<open>numsubs\<close>; the counter is incremented only at a
  mismatch, before it is compared.
\<close>

function isMatch_loop :: "int \<Rightarrow> cptr \<Rightarrow> cptr \<Rightarrow> int \<Rightarrow> int \<Rightarrow> int \<Rightarrow> error + bool" where
  "isMatch_loop maxsub readseq target targetlen i numsubs =
     (if i < targetlen then
        (case rd readseq i of
           Inl e \<Rightarrow> Inl e
         | Inr a \<Rightarrow>
             (case rd target i of
                Inl e \<Rightarrow> Inl e
              | Inr b \<Rightarrow>
                  if a \<noteq> b then
                    (if numsubs + 1 > maxsub then Inr False
                     else isMatch_loop maxsub readseq target targetlen (i + 1) (numsubs + 1))
                  else isMatch_loop maxsub readseq target targetlen (i + 1) numsubs))
      else Inr True)"
  by pat_completeness auto
termination
  by (relation "measure (\<lambda>(maxsub, readseq, target, targetlen, i, numsubs). nat (targetlen - i))")
     auto

definition isMatch :: "int \<Rightarrow> cptr \<Rightarrow> cptr \<Rightarrow> int \<Rightarrow> error + bool" where
  "isMatch maxsub readseq target targetlen = isMatch_loop maxsub readseq target targetlen 0 0"

text \<open>
  The inner loop of \<^verbatim>\<open>findLeftmost\<close>: the first \<open>start\<close> up to \<open>lastStart\<close> at which
  the target matches, if there is one.
\<close>

function findLeftmost_scan ::
  "int \<Rightarrow> string \<Rightarrow> string \<Rightarrow> int \<Rightarrow> int \<Rightarrow> int \<Rightarrow> error + int option" where
  "findLeftmost_scan maxsub readseq target targetlen start lastStart =
     (if start \<le> lastStart then
        (case isMatch maxsub (readseq, start) (target, 0) targetlen of
           Inl e \<Rightarrow> Inl e
         | Inr m \<Rightarrow>
             if m then Inr (Some start)
             else findLeftmost_scan maxsub readseq target targetlen (start + 1) lastStart)
      else Inr None)"
  by pat_completeness auto
termination
  by (relation "measure (\<lambda>(maxsub, readseq, target, targetlen, start, lastStart).
                  nat (lastStart + 1 - start))") auto

text \<open>
  The body of the outer loop of \<^verbatim>\<open>findLeftmost\<close> for the target sequence \<open>i\<close>; the
  state of the loop is \<open>(matchIndex, matchStart, lastMatchEnd)\<close>.
\<close>

definition findLeftmost_step ::
  "int \<Rightarrow> Target \<Rightarrow> string \<Rightarrow> int \<Rightarrow> int \<times> int \<times> int \<Rightarrow> error + (int \<times> int \<times> int)" where
  "findLeftmost_step maxsub t readseq i st =
     (case st of (matchIndex, matchStart, lastMatchEnd) \<Rightarrow>
        (let lastStart = lastMatchEnd - seqlen t ! nat i in
         case findLeftmost_scan maxsub readseq (seq t ! nat i) (seqlen t ! nat i) 0 lastStart of
           Inl e \<Rightarrow> Inl e
         | Inr None \<Rightarrow> Inr st
         | Inr (Some start) \<Rightarrow> Inr (i, start, start + seqlen t ! nat i - 1)))"

function findLeftmost_loop ::
  "int \<Rightarrow> Target \<Rightarrow> string \<Rightarrow> int \<Rightarrow> int \<times> int \<times> int \<Rightarrow> error + (int \<times> int \<times> int)" where
  "findLeftmost_loop maxsub t readseq i st =
     (if i < seqcount t then
        (case findLeftmost_step maxsub t readseq i st of
           Inl e \<Rightarrow> Inl e
         | Inr st' \<Rightarrow> findLeftmost_loop maxsub t readseq (i + 1) st')
      else Inr st)"
  by pat_completeness auto
termination
  by (relation "measure (\<lambda>(maxsub, t, readseq, i, st). nat (seqcount t - i))") auto

text \<open>
  \<^verbatim>\<open>findLeftmost\<close> returns its \<^verbatim>\<open>bool\<close> together with the two reference
  parameters. \<open>matchStart\<close> is written only at a match, so the value it had before the
  call is a parameter: \<open>matchStart0\<close>.
\<close>

definition findLeftmost ::
  "int \<Rightarrow> Target \<Rightarrow> string \<Rightarrow> int \<Rightarrow> int \<Rightarrow> int \<Rightarrow> error + (bool \<times> int \<times> int)" where
  "findLeftmost maxsub t readseq readseqlen rightpad matchStart0 =
     (case findLeftmost_loop maxsub t readseq 0 (- 1, matchStart0, readseqlen - rightpad) of
        Inl e \<Rightarrow> Inl e
      | Inr (matchIndex, matchStart, lastMatchEnd) \<Rightarrow> Inr (matchIndex \<ge> 0, matchIndex, matchStart))"

text \<open>The inner loop of \<^verbatim>\<open>findRightmost\<close>, counting \<open>start\<close> down.\<close>

function findRightmost_scan ::
  "int \<Rightarrow> string \<Rightarrow> string \<Rightarrow> int \<Rightarrow> int \<Rightarrow> int \<Rightarrow> error + int option" where
  "findRightmost_scan maxsub readseq target targetlen start lastMatchStart =
     (if start \<ge> lastMatchStart then
        (case isMatch maxsub (readseq, start) (target, 0) targetlen of
           Inl e \<Rightarrow> Inl e
         | Inr m \<Rightarrow>
             if m then Inr (Some start)
             else findRightmost_scan maxsub readseq target targetlen (start - 1) lastMatchStart)
      else Inr None)"
  by pat_completeness auto
termination
  by (relation "measure (\<lambda>(maxsub, readseq, target, targetlen, start, lastMatchStart).
                  nat (start + 1 - lastMatchStart))") auto

text \<open>
  The body of the outer loop of \<^verbatim>\<open>findRightmost\<close> for the target sequence \<open>i\<close>; the
  state of the loop is \<open>(matchIndex, matchStart, lastMatchStart)\<close>.
\<close>

definition findRightmost_step ::
  "int \<Rightarrow> Target \<Rightarrow> string \<Rightarrow> int \<Rightarrow> int \<Rightarrow> int \<times> int \<times> int \<Rightarrow> error + (int \<times> int \<times> int)" where
  "findRightmost_step maxsub t readseq readseqlen i st =
     (case st of (matchIndex, matchStart, lastMatchStart) \<Rightarrow>
        (let firstStart = readseqlen - seqlen t ! nat i in
         case findRightmost_scan maxsub readseq (seq t ! nat i) (seqlen t ! nat i)
                firstStart lastMatchStart of
           Inl e \<Rightarrow> Inl e
         | Inr None \<Rightarrow> Inr st
         | Inr (Some start) \<Rightarrow> Inr (i, start, start + 1)))"

function findRightmost_loop ::
  "int \<Rightarrow> Target \<Rightarrow> string \<Rightarrow> int \<Rightarrow> int \<Rightarrow> int \<times> int \<times> int \<Rightarrow> error + (int \<times> int \<times> int)" where
  "findRightmost_loop maxsub t readseq readseqlen i st =
     (if i < seqcount t then
        (case findRightmost_step maxsub t readseq readseqlen i st of
           Inl e \<Rightarrow> Inl e
         | Inr st' \<Rightarrow> findRightmost_loop maxsub t readseq readseqlen (i + 1) st')
      else Inr st)"
  by pat_completeness auto
termination
  by (relation "measure (\<lambda>(maxsub, t, readseq, readseqlen, i, st). nat (seqcount t - i))") auto

definition findRightmost ::
  "int \<Rightarrow> Target \<Rightarrow> string \<Rightarrow> int \<Rightarrow> int \<Rightarrow> int \<Rightarrow> error + (bool \<times> int \<times> int)" where
  "findRightmost maxsub t readseq readseqlen leftpad matchStart0 =
     (case findRightmost_loop maxsub t readseq readseqlen 0 (- 1, matchStart0, leftpad) of
        Inl e \<Rightarrow> Inl e
      | Inr (matchIndex, matchStart, lastMatchStart) \<Rightarrow>
          Inr (matchIndex \<ge> 0, matchIndex, matchStart))"

subsection \<open>TargetPair: a labeled pair of targets\<close>

record TargetPair =
  label :: string
  left :: Target
  right :: Target

text \<open>
  The constructor initialises \<open>label\<close>, \<open>left\<close> and \<open>right\<close> in this order (the order
  of their declaration), so an exception of the left \<^verbatim>\<open>Target\<close> comes first; the body
  checks the label and the double negative.
\<close>

definition TargetPair_ctor :: "string \<Rightarrow> string \<Rightarrow> string \<Rightarrow> error + TargetPair" where
  "TargetPair_ctor inLabel leftTargetString rightTargetString =
     bindE (Target_ctor leftTargetString) (\<lambda>l.
     bindE (Target_ctor rightTargetString) (\<lambda>r.
       if length inLabel = 0
       then Inl (RuntimeError (''missing label before '' @ leftTargetString))
       else if \<not> want l \<and> \<not> want r
       then Inl (RuntimeError (''double negative specified for '' @ inLabel))
       else Inr \<lparr>label = inLabel, left = l, right = r\<rparr>))"

definition createReverseComplement :: "TargetPair \<Rightarrow> error + TargetPair" where
  "createReverseComplement tp =
     (let leftTargetString = reverseComplement (right tp);
          rightTargetString = reverseComplement (left tp)
      in TargetPair_ctor (label tp) leftTargetString rightTargetString)"

subsection \<open>The match condition of \<^verbatim>\<open>TargetPair::findMatch\<close>\<close>

text \<open>
  The condition is one C++ expression over \<^verbatim>\<open>&&\<close>, \<^verbatim>\<open>||\<close>, \<^verbatim>\<open>==\<close> and
  \<^verbatim>\<open>!\<close> whose operands call the searches, and the searches write the local variables
  \<open>(leftIndex, leftStart, rightIndex, rightStart)\<close> that later operands read. An operand
  is therefore a computation on these locals, and the operators evaluate their operands
  from left to right, \<^verbatim>\<open>&&\<close> and \<^verbatim>\<open>||\<close> skipping the right one as C++ does.
\<close>

type_synonym locals = "int \<times> int \<times> int \<times> int"

type_synonym 'a comp = "locals \<Rightarrow> error + ('a \<times> locals)"

definition const_c :: "bool \<Rightarrow> bool comp" where
  "const_c b s = Inr (b, s)"

definition and_c :: "bool comp \<Rightarrow> bool comp \<Rightarrow> bool comp" where
  "and_c p q s = (case p s of Inl e \<Rightarrow> Inl e
                  | Inr (b, s') \<Rightarrow> if b then q s' else Inr (False, s'))"

definition or_c :: "bool comp \<Rightarrow> bool comp \<Rightarrow> bool comp" where
  "or_c p q s = (case p s of Inl e \<Rightarrow> Inl e
                 | Inr (b, s') \<Rightarrow> if b then Inr (True, s') else q s')"

definition not_c :: "bool comp \<Rightarrow> bool comp" where
  "not_c p s = (case p s of Inl e \<Rightarrow> Inl e | Inr (b, s') \<Rightarrow> Inr (\<not> b, s'))"

definition eq_c :: "bool comp \<Rightarrow> bool \<Rightarrow> bool comp" where
  "eq_c p w s = (case p s of Inl e \<Rightarrow> Inl e | Inr (b, s') \<Rightarrow> Inr (b = w, s'))"

text \<open>
  A call of \<^verbatim>\<open>findLeftmost\<close> with \<open>leftIndex\<close> and \<open>leftStart\<close> as its reference
  arguments, and a call of \<^verbatim>\<open>findRightmost\<close> with \<open>rightIndex\<close> and \<open>rightStart\<close>;
  the pad argument is evaluated on the locals as they are at the call.
\<close>

definition call_findLeftmost ::
  "int \<Rightarrow> Target \<Rightarrow> string \<Rightarrow> int \<Rightarrow> (locals \<Rightarrow> int) \<Rightarrow> bool comp" where
  "call_findLeftmost maxsub t readseq readseqlen rightpad s =
     (case s of (leftIndex, leftStart, rightIndex, rightStart) \<Rightarrow>
        (case findLeftmost maxsub t readseq readseqlen (rightpad s) leftStart of
           Inl e \<Rightarrow> Inl e
         | Inr (b, matchIndex, matchStart) \<Rightarrow>
             Inr (b, (matchIndex, matchStart, rightIndex, rightStart))))"

definition call_findRightmost ::
  "int \<Rightarrow> Target \<Rightarrow> string \<Rightarrow> int \<Rightarrow> (locals \<Rightarrow> int) \<Rightarrow> bool comp" where
  "call_findRightmost maxsub t readseq readseqlen leftpad s =
     (case s of (leftIndex, leftStart, rightIndex, rightStart) \<Rightarrow>
        (case findRightmost maxsub t readseq readseqlen (leftpad s) rightStart of
           Inl e \<Rightarrow> Inl e
         | Inr (b, matchIndex, matchStart) \<Rightarrow>
             Inr (b, (leftIndex, leftStart, matchIndex, matchStart))))"

definition findMatch_cond :: "int \<Rightarrow> TargetPair \<Rightarrow> string \<Rightarrow> bool comp" where
  "findMatch_cond maxsub tp readString =
     (let readseq = readString; readseqlen = int (length readString) in
      or_c
        (and_c
           (and_c (const_c (want (left tp)))
              (call_findLeftmost maxsub (left tp) readseq readseqlen
                 (\<lambda>s. if want (right tp) then minseqlen (right tp) else maxseqlen (right tp))))
           (eq_c
              (call_findRightmost maxsub (right tp) readseq readseqlen
                 (\<lambda>(leftIndex, leftStart, rightIndex, rightStart).
                    leftStart + seqlen (left tp) ! nat leftIndex))
              (want (right tp))))
        (and_c
           (and_c (const_c (\<not> want (left tp)))
              (call_findRightmost maxsub (right tp) readseq readseqlen
                 (\<lambda>s. maxseqlen (left tp))))
           (not_c
              (call_findLeftmost maxsub (left tp) readseq readseqlen
                 (\<lambda>(leftIndex, leftStart, rightIndex, rightStart). readseqlen - rightStart)))))"

subsection \<open>Writing a hit\<close>

text \<open>
  \<^verbatim>\<open>std::string::substr(pos, n)\<close> with \<^verbatim>\<open>int\<close> arguments: a negative argument becomes
  a huge \<^verbatim>\<open>size_t\<close>, so a negative \<open>pos\<close> is out of range and a negative \<open>n\<close> takes
  the rest of the string.
\<close>

definition substr :: "string \<Rightarrow> int \<Rightarrow> int \<Rightarrow> error + string" where
  "substr s pos n =
     (if pos < 0 \<or> int (length s) < pos then Inl OutOfRange
      else Inr (if n < 0 then drop (nat pos) s else take (nat n) (drop (nat pos) s)))"

text \<open>
  The loop of \<^verbatim>\<open>highlight\<close> over the characters of \<open>readString\<close>, the target pointer
  advancing with it; each character is written as it is when it equals the target's and
  in lower case otherwise.
\<close>

fun highlight_loop :: "string \<Rightarrow> cptr \<Rightarrow> error + string" where
  "highlight_loop [] target = Inr []"
| "highlight_loop (c # cs) target =
     bindE (rd target 0) (\<lambda>t.
     bindE (highlight_loop cs (fst target, snd target + 1)) (\<lambda>out.
       Inr ((if c = t then c else tolower c) # out)))"

definition highlight :: "string \<Rightarrow> cptr \<Rightarrow> error + string" where
  "highlight readString target =
     bindE (highlight_loop readString target) (\<lambda>out. Inr (''['' @ out @ '']''))"

text \<open>\<^verbatim>\<open>writeMatch\<close> returns the text it writes to the standard output.\<close>

definition writeMatch ::
  "TargetPair \<Rightarrow> string \<Rightarrow> string \<Rightarrow> int \<Rightarrow> int \<Rightarrow> int \<Rightarrow> int \<Rightarrow> error + string" where
  "writeMatch tp readName readString leftIndex leftStart rightIndex rightStart =
     (let out0 = readName @ [CHR 0x09];
          initialBases = (if want (left tp) then leftStart else rightStart)
      in
      bindE (if initialBases > 0
             then bindE (substr readString 0 initialBases) (\<lambda>s. Inr (out0 @ s))
             else Inr out0) (\<lambda>out1.
      bindE (if want (left tp) then
               (let leftlen = seqlen (left tp) ! nat leftIndex in
                bindE (substr readString leftStart leftlen) (\<lambda>sub.
                bindE (highlight sub (seq (left tp) ! nat leftIndex, 0)) (\<lambda>h.
                  let nextlen = (if want (right tp) then rightStart
                                 else int (length readString)) - leftStart - leftlen
                  in if nextlen > 0
                     then bindE (substr readString (leftStart + leftlen) nextlen)
                            (\<lambda>s. Inr (out1 @ h @ s))
                     else Inr (out1 @ h))))
             else Inr out1) (\<lambda>out2.
      bindE (if want (right tp) then
               (let rightlen = seqlen (right tp) ! nat rightIndex in
                bindE (substr readString rightStart rightlen) (\<lambda>sub.
                bindE (highlight sub (seq (right tp) ! nat rightIndex, 0)) (\<lambda>h.
                  let nextlen = int (length readString) - rightStart - rightlen
                  in if nextlen > 0
                     then bindE (substr readString (rightStart + rightlen) nextlen)
                            (\<lambda>s. Inr (out2 @ h @ s))
                     else Inr (out2 @ h))))
             else Inr out2) (\<lambda>out3.
        Inr (out3 @ [CHR 0x09] @ label tp @ [CHR 0x0A])))))"

text \<open>
  \<^verbatim>\<open>findMatch\<close> returns the text written to the standard output: nothing when the
  condition is false. Its four locals are not initialised; \<open>locals0\<close> stands for
  whatever they hold.
\<close>

definition findMatch ::
  "int \<Rightarrow> TargetPair \<Rightarrow> string \<Rightarrow> string \<Rightarrow> locals \<Rightarrow> error + string" where
  "findMatch maxsub tp readName readString locals0 =
     (case findMatch_cond maxsub tp readString locals0 of
        Inl e \<Rightarrow> Inl e
      | Inr (b, (leftIndex, leftStart, rightIndex, rightStart)) \<Rightarrow>
          if b then writeMatch tp readName readString leftIndex leftStart rightIndex rightStart
          else Inr [])"

subsection \<open>Reading the target pairs and scanning the reads\<close>

text \<open>
  The loop of \<^verbatim>\<open>readTargetPairs\<close> over the lines of the standard input; \<open>targetPair\<close>
  is the global vector.
\<close>

fun readTargetPairs_loop :: "string list \<Rightarrow> TargetPair list \<Rightarrow> error + TargetPair list" where
  "readTargetPairs_loop [] targetPair = Inr targetPair"
| "readTargetPairs_loop (line # rest) targetPair =
     (let column = getDelimitedStrings line (CHR 0x09) in
      if length column \<noteq> 3
      then Inl (RuntimeError (''unexpected #columns in '' @ line))
      else
        bindE (TargetPair_ctor (column ! 0) (column ! 1) (column ! 2)) (\<lambda>tp.
        bindE (createReverseComplement tp) (\<lambda>rc.
          readTargetPairs_loop rest (targetPair @ [tp] @ [rc]))))"

definition readTargetPairs :: "string list \<Rightarrow> error + TargetPair list" where
  "readTargetPairs lines =
     bindE (readTargetPairs_loop lines []) (\<lambda>targetPair.
       if length targetPair = 0 then Inl (RuntimeError ''no input targets'')
       else Inr targetPair)"

text \<open>The two loops of \<^verbatim>\<open>readBamFile\<close>: every pair on every alignment.\<close>

fun findMatch_pairs ::
  "int \<Rightarrow> TargetPair list \<Rightarrow> string \<Rightarrow> string \<Rightarrow> locals \<Rightarrow> error + string" where
  "findMatch_pairs maxsub [] name bases locals0 = Inr []"
| "findMatch_pairs maxsub (tp # tps) name bases locals0 =
     bindE (findMatch maxsub tp name bases locals0) (\<lambda>out.
     bindE (findMatch_pairs maxsub tps name bases locals0) (\<lambda>outs. Inr (out @ outs)))"

fun scanAlignments ::
  "int \<Rightarrow> TargetPair list \<Rightarrow> (string \<times> string) list \<Rightarrow> locals \<Rightarrow> error + string" where
  "scanAlignments maxsub targetPair [] locals0 = Inr []"
| "scanAlignments maxsub targetPair ((name, bases) # rest) locals0 =
     bindE (findMatch_pairs maxsub targetPair name bases locals0) (\<lambda>out.
     bindE (scanAlignments maxsub targetPair rest locals0) (\<lambda>outs. Inr (out @ outs)))"

text \<open>
  \<^verbatim>\<open>readBamFile\<close>: \<open>opened\<close> is the result of opening the BAM file, \<open>lines\<close> the
  lines of the standard input and \<open>alignments\<close> the \<open>(Name, QueryBases)\<close> of the
  alignments in the file.
\<close>

definition readBamFile ::
  "int \<Rightarrow> string \<Rightarrow> bool \<Rightarrow> string list \<Rightarrow> (string \<times> string) list \<Rightarrow> locals \<Rightarrow> error + string" where
  "readBamFile maxsub bam_filename opened lines alignments locals0 =
     (if \<not> opened then Inl (RuntimeError (''unable to open '' @ bam_filename))
      else bindE (readTargetPairs lines) (\<lambda>targetPair.
             scanAlignments maxsub targetPair alignments locals0))"

subsection \<open>Notions of the specification\<close>

text \<open>
  The definitions from here to the properties are not code of the program: they are the
  notions in which the specification speaks and the invariants of the loops, and the
  properties below relate the functions above to them.
\<close>

text \<open>The number of positions at which two buffers differ.\<close>

definition numDiff :: "string \<Rightarrow> string \<Rightarrow> nat" where
  "numDiff a b = length (filter (\<lambda>(x, y). x \<noteq> y) (zip a b))"

text \<open>The characters of a buffer from index \<open>i\<close> up to, and without, index \<open>n\<close>.\<close>

definition window :: "string \<Rightarrow> int \<Rightarrow> int \<Rightarrow> string" where
  "window buf i n = drop (nat i) (take (nat n) buf)"

text \<open>
  What \<^verbatim>\<open>isMatch\<close> decides for any \<open>maxsub\<close>; for \<open>maxsub \<ge> 0\<close>, the only values
  that \<^verbatim>\<open>parseArgs\<close> lets through, it is \<open>numDiff a b \<le> maxsub\<close>.
\<close>

definition fuzzyEq :: "int \<Rightarrow> string \<Rightarrow> string \<Rightarrow> bool" where
  "fuzzyEq maxsub a b = (numDiff a b = 0 \<or> int (numDiff a b) \<le> maxsub)"

text \<open>
  The target matches the read at offset \<open>start\<close>: what \<^verbatim>\<open>isMatch\<close> returns on a window
  of the read that lies inside it.
\<close>

definition matchesAt :: "int \<Rightarrow> string \<Rightarrow> string \<Rightarrow> int \<Rightarrow> bool" where
  "matchesAt maxsub readseq target start =
     fuzzyEq maxsub (window readseq start (start + int (length target))) target"

text \<open>The fields of a \<^verbatim>\<open>Target\<close> agree: \<open>seqcount\<close> sequences with their lengths.\<close>

definition Target_shape :: "Target \<Rightarrow> bool" where
  "Target_shape t = (seqcount t = int (length (seq t)) \<and>
                     seqlen t = map (\<lambda>x. int (length x)) (seq t))"

text \<open>What the constructor establishes.\<close>

definition Target_valid :: "Target \<Rightarrow> bool" where
  "Target_valid t = (Target_shape t \<and> seq t \<noteq> [] \<and>
     (\<forall>c \<in> set (seq t). 8 \<le> length c \<and> set c \<subseteq> {CHR ''A'', CHR ''C'', CHR ''G'', CHR ''T''}) \<and>
     minseqlen t \<in> set (seqlen t) \<and> maxseqlen t \<in> set (seqlen t) \<and>
     (\<forall>n \<in> set (seqlen t). minseqlen t \<le> n \<and> n \<le> maxseqlen t))"

text \<open>The target sequence \<open>j\<close> occurs in the read at offset \<open>s\<close>.\<close>

definition occ :: "int \<Rightarrow> Target \<Rightarrow> string \<Rightarrow> int \<Rightarrow> int \<Rightarrow> bool" where
  "occ maxsub t readseq j s =
     (0 \<le> j \<and> j < seqcount t \<and> 0 \<le> s \<and> s + seqlen t ! nat j \<le> int (length readseq) \<and>
      matchesAt maxsub readseq (seq t ! nat j) s)"

text \<open>
  The invariant of the outer loop of \<^verbatim>\<open>findLeftmost\<close> before the target sequence \<open>i\<close>,
  for the initial end point \<open>E\<close>: either nothing is recorded and no sequence before \<open>i\<close>
  occurs with its end up to \<open>E\<close>, or the recorded occurrence ends first among those of
  the sequences before \<open>i\<close>, and of the occurrences ending there it has the least index.
\<close>

definition leftInv :: "int \<Rightarrow> Target \<Rightarrow> string \<Rightarrow> int \<Rightarrow> int \<Rightarrow> int \<Rightarrow> int \<times> int \<times> int \<Rightarrow> bool" where
  "leftInv maxsub t r E ms0 i st = (case st of (mi, ms, lme) \<Rightarrow>
     (mi = - 1 \<and> ms = ms0 \<and> lme = E \<and>
        (\<forall>j s. j < i \<and> occ maxsub t r j s \<and> s + seqlen t ! nat j \<le> E \<longrightarrow> False)) \<or>
     (0 \<le> mi \<and> mi < i \<and> occ maxsub t r mi ms \<and> ms + seqlen t ! nat mi \<le> E \<and>
        lme = ms + seqlen t ! nat mi - 1 \<and>
        (\<forall>j s. j < i \<and> occ maxsub t r j s \<and> s + seqlen t ! nat j \<le> E \<longrightarrow>
           ms + seqlen t ! nat mi \<le> s + seqlen t ! nat j \<and>
           (s + seqlen t ! nat j = ms + seqlen t ! nat mi \<longrightarrow> mi \<le> j))))"

text \<open>
  The invariant of the outer loop of \<^verbatim>\<open>findRightmost\<close> for the initial starting point
  \<open>L\<close>, with the start of an occurrence in place of its end.
\<close>

definition rightInv :: "int \<Rightarrow> Target \<Rightarrow> string \<Rightarrow> int \<Rightarrow> int \<Rightarrow> int \<Rightarrow> int \<times> int \<times> int \<Rightarrow> bool" where
  "rightInv maxsub t r L ms0 i st = (case st of (mi, ms, lms) \<Rightarrow>
     (mi = - 1 \<and> ms = ms0 \<and> lms = L \<and>
        (\<forall>j s. j < i \<and> occ maxsub t r j s \<and> L \<le> s \<longrightarrow> False)) \<or>
     (0 \<le> mi \<and> mi < i \<and> occ maxsub t r mi ms \<and> L \<le> ms \<and> lms = ms + 1 \<and>
        (\<forall>j s. j < i \<and> occ maxsub t r j s \<and> L \<le> s \<longrightarrow> s \<le> ms \<and> (s = ms \<longrightarrow> mi \<le> j))))"

text \<open>
  The target occurs in the read at offset \<open>start\<close>: the window lies inside the read and
  \<^verbatim>\<open>isMatch\<close> returns true on it.
\<close>

definition occursAt :: "int \<Rightarrow> string \<Rightarrow> string \<Rightarrow> int \<Rightarrow> bool" where
  "occursAt maxsub readseq target start =
     (0 \<le> start \<and> start + int (length target) \<le> int (length readseq) \<and>
      isMatch maxsub (readseq, start) (target, 0) (int (length target)) = Inr True)"

text \<open>
  The result of a search on a whole read, when it reports a match: the index of the
  matching target sequence and the start of the match.
\<close>

definition leftmost :: "int \<Rightarrow> Target \<Rightarrow> string \<Rightarrow> int \<Rightarrow> (int \<times> int) option" where
  "leftmost maxsub t r rightReserve =
     (case findLeftmost maxsub t r (int (length r)) rightReserve 0 of
        Inl e \<Rightarrow> None
      | Inr (found, matchIndex, matchStart) \<Rightarrow>
          if found then Some (matchIndex, matchStart) else None)"

definition rightmost :: "int \<Rightarrow> Target \<Rightarrow> string \<Rightarrow> int \<Rightarrow> (int \<times> int) option" where
  "rightmost maxsub t r leftReserve =
     (case findRightmost maxsub t r (int (length r)) leftReserve 0 of
        Inl e \<Rightarrow> None
      | Inr (found, matchIndex, matchStart) \<Rightarrow>
          if found then Some (matchIndex, matchStart) else None)"

text \<open>
  The two branches of the decision of a pair, as computations on the locals: for a left
  set that requires presence, and for a left set that requires absence.
\<close>

definition presentBranch :: "int \<Rightarrow> TargetPair \<Rightarrow> string \<Rightarrow> bool comp" where
  "presentBranch maxsub tp readString =
     and_c
       (call_findLeftmost maxsub (left tp) readString (int (length readString))
          (\<lambda>s. if want (right tp) then minseqlen (right tp) else maxseqlen (right tp)))
       (eq_c
          (call_findRightmost maxsub (right tp) readString (int (length readString))
             (\<lambda>(leftIndex, leftStart, rightIndex, rightStart).
                leftStart + seqlen (left tp) ! nat leftIndex))
          (want (right tp)))"

definition absentBranch :: "int \<Rightarrow> TargetPair \<Rightarrow> string \<Rightarrow> bool comp" where
  "absentBranch maxsub tp readString =
     and_c
       (call_findRightmost maxsub (right tp) readString (int (length readString))
          (\<lambda>s. maxseqlen (left tp)))
       (not_c
          (call_findLeftmost maxsub (left tp) readString (int (length readString))
             (\<lambda>(leftIndex, leftStart, rightIndex, rightStart).
                int (length readString) - rightStart)))"

text \<open>
  The decision of a pair in the words of the specification: the branch is chosen by the
  polarity of the left set.
\<close>

definition pairConfirmed :: "int \<Rightarrow> TargetPair \<Rightarrow> string \<Rightarrow> bool" where
  "pairConfirmed maxsub tp r =
     (if want (left tp) then
        (case leftmost maxsub (left tp) r
                (if want (right tp) then minseqlen (right tp) else maxseqlen (right tp)) of
           None \<Rightarrow> False
         | Some (leftIndex, leftStart) \<Rightarrow>
             (rightmost maxsub (right tp) r (leftStart + seqlen (left tp) ! nat leftIndex) \<noteq> None)
               = want (right tp))
      else
        (case rightmost maxsub (right tp) r (maxseqlen (left tp)) of
           None \<Rightarrow> False
         | Some (rightIndex, rightStart) \<Rightarrow>
             leftmost maxsub (left tp) r (int (length r) - rightStart) = None))"

text \<open>
  The format of the report. A matched span is written between brackets, each of its
  characters as it is where it equals the character of the matched target sequence and
  as \<open>f\<close> of it where it differs; the read outside the spans is written as it is.
\<close>

definition markDiff :: "(char \<Rightarrow> char) \<Rightarrow> string \<Rightarrow> string \<Rightarrow> string" where
  "markDiff f a b = map (\<lambda>(x, y). if x = y then x else f x) (zip a b)"

definition bracketed :: "(char \<Rightarrow> char) \<Rightarrow> string \<Rightarrow> int \<Rightarrow> string \<Rightarrow> string" where
  "bracketed f r start target =
     ''['' @ markDiff f (window r start (start + int (length target))) target @ '']''"

definition annotated :: "(char \<Rightarrow> char) \<Rightarrow> int \<Rightarrow> TargetPair \<Rightarrow> string \<Rightarrow> string" where
  "annotated f maxsub tp r =
     (if want (left tp) then
        (case leftmost maxsub (left tp) r
                (if want (right tp) then minseqlen (right tp) else maxseqlen (right tp)) of
           None \<Rightarrow> []
         | Some (li, ls) \<Rightarrow>
             (let lt = seq (left tp) ! nat li; le = ls + int (length lt) in
              if want (right tp) then
                (case rightmost maxsub (right tp) r le of
                   None \<Rightarrow> []
                 | Some (ri, rs) \<Rightarrow>
                     (let rt = seq (right tp) ! nat ri in
                      window r 0 ls @ bracketed f r ls lt @ window r le rs @
                      bracketed f r rs rt @ window r (rs + int (length rt)) (int (length r))))
              else window r 0 ls @ bracketed f r ls lt @ window r le (int (length r))))
      else
        (case rightmost maxsub (right tp) r (maxseqlen (left tp)) of
           None \<Rightarrow> []
         | Some (ri, rs) \<Rightarrow>
             (let rt = seq (right tp) ! nat ri in
              window r 0 rs @ bracketed f r rs rt @
              window r (rs + int (length rt)) (int (length r)))))"

text \<open>
  The start offsets, in increasing order, at which the target differs from the read in at
  most \<open>maxsub\<close> positions.
\<close>

definition occurrences :: "int \<Rightarrow> string \<Rightarrow> string \<Rightarrow> int list" where
  "occurrences maxsub r target =
     filter (\<lambda>s. int (numDiff (window r s (s + int (length target))) target) \<le> maxsub)
       [0..int (length r) - int (length target)]"

text \<open>
  An occurrence that \<^verbatim>\<open>findLeftmost\<close> may report: the target sequence \<open>j\<close> occurs at
  offset \<open>s\<close> and ends at or before the read length less the reserve.
\<close>

definition qualifies :: "int \<Rightarrow> Target \<Rightarrow> string \<Rightarrow> int \<Rightarrow> int \<Rightarrow> int \<Rightarrow> bool" where
  "qualifies maxsub t r rightpad j s =
     (0 \<le> j \<and> j < seqcount t \<and> occursAt maxsub r (seq t ! nat j) s \<and>
      s + seqlen t ! nat j \<le> int (length r) - rightpad)"

text \<open>Case inversion, the marking of a substitution in the words of the specification.\<close>

definition invertCase :: "char \<Rightarrow> char" where
  "invertCase c = (if tolower c \<noteq> c then tolower c else toupper c)"

text \<open>
  The strings of a list with the delimiter between them: what the loop of
  \<^verbatim>\<open>Target::reverseComplement\<close> appends after the sign.
\<close>

fun joinWith :: "char \<Rightarrow> string list \<Rightarrow> string" where
  "joinWith d [] = []"
| "joinWith d [x] = x"
| "joinWith d (x # y # ys) = x @ [d] @ joinWith d (y # ys)"

text \<open>The reverse complement of one target sequence, and the mirror of a set and of a pair.\<close>

definition revcomp :: "string \<Rightarrow> string" where
  "revcomp c = invertSequence (reverseSequence c)"

definition mirrorTarget :: "Target \<Rightarrow> Target" where
  "mirrorTarget t = t\<lparr>seq := map revcomp (seq t)\<rparr>"

definition mirrorPair :: "TargetPair \<Rightarrow> TargetPair" where
  "mirrorPair tp =
     \<lparr>label = label tp, left = mirrorTarget (right tp), right = mirrorTarget (left tp)\<rparr>"

text \<open>The swap of the bases in the words of the specification.\<close>

definition swapBase :: "char \<Rightarrow> char" where
  "swapBase c = (if c = CHR ''A'' then CHR ''T'' else if c = CHR ''T'' then CHR ''A''
                 else if c = CHR ''C'' then CHR ''G'' else if c = CHR ''G'' then CHR ''C''
                 else c)"

text \<open>
  The grammar of a side, \<open>[-]SEQ(|SEQ)*\<close>: the absence polarity is a leading \<open>-\<close>, and
  the candidates are the parts of the rest, in upper case, between the bars. A line is
  malformed in the words of the specification.
\<close>

definition absent :: "string \<Rightarrow> bool" where
  "absent spec = (spec \<noteq> [] \<and> hd spec = CHR ''-'')"

definition candidates :: "string \<Rightarrow> string list" where
  "candidates spec =
     getDelimitedStrings
       (if absent spec then drop 1 (toupperSequence spec) else toupperSequence spec) (CHR ''|'')"

definition malformed :: "string \<Rightarrow> bool" where
  "malformed line =
     (let column = getDelimitedStrings line (CHR 0x09) in
      length column \<noteq> 3 \<or>
      column ! 0 = [] \<or>
      (\<exists>c \<in> set (candidates (column ! 1)) \<union> set (candidates (column ! 2)).
         length c < 8 \<or> (\<exists>ch \<in> set c. ch \<notin> {CHR ''A'', CHR ''C'', CHR ''G'', CHR ''T''})) \<or>
      (absent (column ! 1) \<and> absent (column ! 2)))"

section \<open>Properties\<close>

declare isMatch_loop.simps [simp del]
declare findLeftmost_scan.simps [simp del]
declare findLeftmost_loop.simps [simp del]
declare findRightmost_scan.simps [simp del]
declare findRightmost_loop.simps [simp del]

subsection \<open>The bounded comparison\<close>

lemma window_step:
  assumes "0 \<le> i" "i < n" "n \<le> int (length buf)"
  shows "window buf i n = buf ! nat i # window buf (i + 1) n"
proof -
  have "nat i < length (take (nat n) buf)" using assms by simp
  then have "drop (nat i) (take (nat n) buf) =
             take (nat n) buf ! nat i # drop (Suc (nat i)) (take (nat n) buf)"
    by (rule Cons_nth_drop_Suc[symmetric])
  moreover have "take (nat n) buf ! nat i = buf ! nat i" using assms by simp
  moreover have "Suc (nat i) = nat (i + 1)" using assms by simp
  ultimately show ?thesis by (simp add: window_def)
qed

lemma window_end: "n \<le> i \<Longrightarrow> window buf i n = []"
  by (simp add: window_def)

lemma window_whole: "n = int (length buf) \<Longrightarrow> window buf 0 n = buf"
  by (simp add: window_def)

lemma numDiff_Nil [simp]: "numDiff [] ys = 0" "numDiff xs [] = 0"
  by (simp_all add: numDiff_def)

lemma numDiff_Cons [simp]:
  "numDiff (x # xs) (y # ys) = (if x \<noteq> y then Suc (numDiff xs ys) else numDiff xs ys)"
  by (simp add: numDiff_def)

text \<open>
  The loop of \<^verbatim>\<open>isMatch\<close> from index \<open>i\<close> with \<open>numsubs\<close> mismatches counted so far,
  on two windows that lie inside their buffers.
\<close>

lemma isMatch_loop_window:
  assumes "0 \<le> i" "0 \<le> ro" "ro + n \<le> int (length rb)" "0 \<le> to" "to + n \<le> int (length tb)"
  shows "isMatch_loop maxsub (rb, ro) (tb, to) n i numsubs =
         Inr (let d = numDiff (window rb (ro + i) (ro + n)) (window tb (to + i) (to + n))
              in d = 0 \<or> numsubs + int d \<le> maxsub)"
  using assms
proof (induction maxsub "(rb, ro)" "(tb, to)" n i numsubs rule: isMatch_loop.induct)
  case (1 maxsub n i numsubs)
  show ?case
  proof (cases "i < n")
    case False
    then show ?thesis using 1(3-)
      by (subst isMatch_loop.simps) (simp add: window_end)
  next
    case True
    have ra: "rd (rb, ro) i = Inr (rb ! nat (ro + i))" using True 1(3-) by (simp add: rd_def)
    have rb: "rd (tb, to) i = Inr (tb ! nat (to + i))" using True 1(3-) by (simp add: rd_def)
    have wr: "window rb (ro + i) (ro + n) = rb ! nat (ro + i) # window rb (ro + (i + 1)) (ro + n)"
      using window_step[of "ro + i" "ro + n" rb] True 1(3-) by (simp add: add.assoc)
    have wt: "window tb (to + i) (to + n) = tb ! nat (to + i) # window tb (to + (i + 1)) (to + n)"
      using window_step[of "to + i" "to + n" tb] True 1(3-) by (simp add: add.assoc)
    show ?thesis
    proof (cases "rb ! nat (ro + i) = tb ! nat (to + i)")
      case eq: True
      have "isMatch_loop maxsub (rb, ro) (tb, to) n i numsubs =
            isMatch_loop maxsub (rb, ro) (tb, to) n (i + 1) numsubs"
        using True ra rb eq by (subst isMatch_loop.simps) simp
      also have "\<dots> = Inr (let d = numDiff (window rb (ro + (i + 1)) (ro + n))
                                        (window tb (to + (i + 1)) (to + n))
                           in d = 0 \<or> numsubs + int d \<le> maxsub)"
        using 1(2)[OF True ra rb] eq 1(3-) by simp
      finally show ?thesis using eq by (simp add: wr wt)
    next
      case ne: False
      show ?thesis
      proof (cases "numsubs + 1 > maxsub")
        case True
        then show ?thesis using \<open>i < n\<close> ra rb ne
          by (subst isMatch_loop.simps) (simp add: wr wt Let_def)
      next
        case le: False
        have "isMatch_loop maxsub (rb, ro) (tb, to) n i numsubs =
              isMatch_loop maxsub (rb, ro) (tb, to) n (i + 1) (numsubs + 1)"
          using True ra rb ne le by (subst isMatch_loop.simps) simp
        also have "\<dots> = Inr (let d = numDiff (window rb (ro + (i + 1)) (ro + n))
                                          (window tb (to + (i + 1)) (to + n))
                             in d = 0 \<or> numsubs + 1 + int d \<le> maxsub)"
          using 1(1)[OF True ra rb] ne le 1(3-) by simp
        finally show ?thesis using ne le by (auto simp add: wr wt Let_def)
      qed
    qed
  qed
qed

lemma numDiff_sym: "numDiff a b = numDiff b a"
proof (induction a arbitrary: b)
  case Nil
  then show ?case by simp
next
  case (Cons x xs)
  then show ?case by (cases b) auto
qed

lemma fuzzyEq_sym: "fuzzyEq maxsub a b = fuzzyEq maxsub b a"
  by (simp add: fuzzyEq_def numDiff_sym[of a b])

lemma isMatch_at:
  assumes "0 \<le> start" "start + int (length target) \<le> int (length readseq)"
  shows "isMatch maxsub (readseq, start) (target, 0) (int (length target)) =
         Inr (fuzzyEq maxsub (window readseq start (start + int (length target))) target)"
  using isMatch_loop_window[of 0 start "int (length target)" readseq 0 target maxsub 0] assms
  by (simp add: isMatch_def window_whole fuzzyEq_def Let_def)

lemma isMatch_whole:
  assumes "length a = length b"
  shows "isMatch maxsub (a, 0) (b, 0) (int (length b)) = Inr (fuzzyEq maxsub a b)"
  using isMatch_at[of 0 b a maxsub] assms by (simp add: window_whole)

text \<open>
  Claim C3. For buffers \<open>a\<close> and \<open>b\<close> of equal length, \<^verbatim>\<open>isMatch\<close> returns true exactly
  when the number of positions at which they differ is at most \<open>maxsub\<close> (a non-negative
  threshold); it gives the same answer with \<open>a\<close> and \<open>b\<close> exchanged; and a match at
  threshold \<open>k\<close> is a match at every threshold \<open>k' \<ge> k\<close>.
\<close>

theorem isMatch_numDiff:
  assumes "length a = length b"
  shows "(0 \<le> maxsub \<longrightarrow>
            isMatch maxsub (a, 0) (b, 0) (int (length b)) = Inr (int (numDiff a b) \<le> maxsub)) \<and>
         isMatch maxsub (a, 0) (b, 0) (int (length b)) =
           isMatch maxsub (b, 0) (a, 0) (int (length a)) \<and>
         (\<forall>k k'. k \<le> k' \<and> isMatch k (a, 0) (b, 0) (int (length b)) = Inr True \<longrightarrow>
                  isMatch k' (a, 0) (b, 0) (int (length b)) = Inr True)"
proof (intro conjI impI allI)
  assume "0 \<le> maxsub"
  then show "isMatch maxsub (a, 0) (b, 0) (int (length b)) = Inr (int (numDiff a b) \<le> maxsub)"
    using isMatch_whole[OF assms, of maxsub] by (auto simp: fuzzyEq_def)
next
  show "isMatch maxsub (a, 0) (b, 0) (int (length b)) =
        isMatch maxsub (b, 0) (a, 0) (int (length a))"
    using isMatch_whole[OF assms, of maxsub] isMatch_whole[OF assms[symmetric], of maxsub]
    by (simp add: fuzzyEq_sym[of maxsub a b])
next
  fix k k' :: int
  assume "k \<le> k' \<and> isMatch k (a, 0) (b, 0) (int (length b)) = Inr True"
  then show "isMatch k' (a, 0) (b, 0) (int (length b)) = Inr True"
    using isMatch_whole[OF assms, of k] isMatch_whole[OF assms, of k']
    by (auto simp: fuzzyEq_def)
qed

theorem isMatch_numDiff_witness:
  "length ''ACGTACGT'' = length ''ACCTACGA'' \<and>
   numDiff ''ACGTACGT'' ''ACCTACGA'' = 2 \<and>
   isMatch 2 (''ACGTACGT'', 0) (''ACCTACGA'', 0) 8 = Inr True \<and>
   isMatch 1 (''ACGTACGT'', 0) (''ACCTACGA'', 0) 8 = Inr False \<and>
   isMatch 2 (''ACCTACGA'', 0) (''ACGTACGT'', 0) 8 = Inr True \<and>
   isMatch 3 (''ACGTACGT'', 0) (''ACCTACGA'', 0) 8 = Inr True"
proof -
  have h: "length ''ACGTACGT'' = length ''ACCTACGA''" by simp
  have n: "numDiff ''ACGTACGT'' ''ACCTACGA'' = 2" by simp
  have m: "isMatch 2 (''ACGTACGT'', 0) (''ACCTACGA'', 0) 8 = Inr True"
    using isMatch_numDiff[OF h, of 2] n by simp
  have m1: "isMatch 1 (''ACGTACGT'', 0) (''ACCTACGA'', 0) 8 = Inr False"
    using isMatch_numDiff[OF h, of 1] n by simp
  have s: "isMatch 2 (''ACCTACGA'', 0) (''ACGTACGT'', 0) 8 = Inr True"
    using isMatch_numDiff[OF h, of 2] m by simp
  have k: "isMatch 3 (''ACGTACGT'', 0) (''ACCTACGA'', 0) 8 = Inr True"
    using isMatch_numDiff[OF h, of 2, THEN conjunct2, THEN conjunct2, rule_format, of 2 3] m
    by simp
  show ?thesis using h n m m1 s k by blast
qed

subsection \<open>The inner loops of the searches\<close>

lemma find_upto_None:
  "find P [a..b] = None \<longleftrightarrow> (\<forall>s. a \<le> s \<and> s \<le> b \<longrightarrow> \<not> P s)"
  by (auto simp: find_None_iff)

lemma find_upto_Some:
  "find P [a..b] = Some s \<Longrightarrow> a \<le> s \<and> s \<le> b \<and> P s \<and> (\<forall>s'. a \<le> s' \<and> s' < s \<longrightarrow> \<not> P s')"
proof (induction a b rule: upto.induct)
  case (1 i j)
  show ?case
  proof (cases "i \<le> j")
    case False
    then show ?thesis using 1(2) by simp
  next
    case True
    then have u: "[i..j] = i # [i + 1..j]" by (simp add: upto_rec1)
    show ?thesis
    proof (cases "P i")
      case True
      then show ?thesis using 1(2) u \<open>i \<le> j\<close> by auto
    next
      case False
      then have "find P [i + 1..j] = Some s" using 1(2) u by simp
      from 1(1)[OF True this] False show ?thesis
        by (metis add.commute add_le_cancel_left le_less  zless_add1_eq zle_add1_eq_le order.trans less_le_not_le linorder_not_le)
    qed
  qed
qed

lemma findLeftmost_scan_find:
  assumes "0 \<le> start" "lastStart + int (length target) \<le> int (length readseq)"
  shows "findLeftmost_scan maxsub readseq target (int (length target)) start lastStart =
         Inr (find (matchesAt maxsub readseq target) [start..lastStart])"
  using assms
proof (induction maxsub readseq target "int (length target)" start lastStart
       rule: findLeftmost_scan.induct)
  case (1 maxsub readseq target start lastStart)
  show ?case
  proof (cases "start \<le> lastStart")
    case False
    then show ?thesis by (subst findLeftmost_scan.simps) simp
  next
    case True
    have m: "isMatch maxsub (readseq, start) (target, 0) (int (length target)) =
             Inr (matchesAt maxsub readseq target start)"
      using isMatch_at[of start target readseq maxsub] True 1(2,3) by (simp add: matchesAt_def)
    have u: "[start..lastStart] = start # [start + 1..lastStart]"
      using True by (simp add: upto_rec1)
    show ?thesis
    proof (cases "matchesAt maxsub readseq target start")
      case True
      then show ?thesis using m \<open>start \<le> lastStart\<close> u
        by (subst findLeftmost_scan.simps) simp
    next
      case False
      have "findLeftmost_scan maxsub readseq target (int (length target)) (start + 1) lastStart =
            Inr (find (matchesAt maxsub readseq target) [start + 1..lastStart])"
        using 1(1)[OF True m] False 1(2,3) by simp
      then show ?thesis using m False True u
        by (subst findLeftmost_scan.simps) simp
    qed
  qed
qed

lemma find_rev_upto_None:
  "find P (rev [a..b]) = None \<longleftrightarrow> (\<forall>s. a \<le> s \<and> s \<le> b \<longrightarrow> \<not> P s)"
  by (auto simp: find_None_iff)

lemma find_rev_upto_Some:
  "find P (rev [a..b]) = Some s \<Longrightarrow> a \<le> s \<and> s \<le> b \<and> P s \<and> (\<forall>s'. s < s' \<and> s' \<le> b \<longrightarrow> \<not> P s')"
proof (induction "nat (b + 1 - a)" arbitrary: b)
  case 0
  then show ?case by simp
next
  case (Suc n)
  have ab: "a \<le> b" using Suc(2) by simp
  then have u: "rev [a..b] = b # rev [a..b - 1]" by (simp add: upto_rec2)
  show ?case
  proof (cases "P b")
    case True
    then show ?thesis using Suc(3) u ab by auto
  next
    case False
    then have f: "find P (rev [a..b - 1]) = Some s" using Suc(3) u by simp
    have n: "n = nat (b - 1 + 1 - a)" using Suc(2) by simp
    have ih: "a \<le> s \<and> s \<le> b - 1 \<and> P s \<and> (\<forall>s'. s < s' \<and> s' \<le> b - 1 \<longrightarrow> \<not> P s')"
      using Suc(1)[OF n f] .
    have "\<forall>s'. s < s' \<and> s' \<le> b \<longrightarrow> \<not> P s'"
    proof (intro allI impI)
      fix s' assume h: "s < s' \<and> s' \<le> b"
      show "\<not> P s'"
      proof (cases "s' = b")
        case True
        then show ?thesis using False by simp
      next
        case ne: False
        then have "s' \<le> b - 1" using h by simp
        then show ?thesis using ih h by blast
      qed
    qed
    then show ?thesis using ih by simp
  qed
qed

lemma findRightmost_scan_find:
  assumes "0 \<le> lastMatchStart" "start + int (length target) \<le> int (length readseq)"
  shows "findRightmost_scan maxsub readseq target (int (length target)) start lastMatchStart =
         Inr (find (matchesAt maxsub readseq target) (rev [lastMatchStart..start]))"
  using assms(2)
proof (induction "nat (start + 1 - lastMatchStart)" arbitrary: start)
  case 0
  then have "\<not> start \<ge> lastMatchStart" by simp
  then show ?case by (subst findRightmost_scan.simps) simp
next
  case (Suc n)
  have ge: "start \<ge> lastMatchStart" using Suc(2) by simp
  have m: "isMatch maxsub (readseq, start) (target, 0) (int (length target)) =
           Inr (matchesAt maxsub readseq target start)"
    using isMatch_at[of start target readseq maxsub] ge assms(1) Suc(3) by (simp add: matchesAt_def)
  have u: "rev [lastMatchStart..start] = start # rev [lastMatchStart..start - 1]"
    using ge by (simp add: upto_rec2)
  show ?case
  proof (cases "matchesAt maxsub readseq target start")
    case True
    then show ?thesis using m ge u by (subst findRightmost_scan.simps) simp
  next
    case False
    have n: "n = nat (start - 1 + 1 - lastMatchStart)" using Suc(2) by simp
    have "findRightmost_scan maxsub readseq target (int (length target)) (start - 1) lastMatchStart =
          Inr (find (matchesAt maxsub readseq target) (rev [lastMatchStart..start - 1]))"
      using Suc(1)[OF n] Suc(3) by simp
    then show ?thesis using m False ge u by (subst findRightmost_scan.simps) simp
  qed
qed

subsection \<open>The outer loop of findLeftmost\<close>

lemma shape_len: "Target_shape t \<Longrightarrow> 0 \<le> i \<Longrightarrow> i < seqcount t \<Longrightarrow>
   seqlen t ! nat i = int (length (seq t ! nat i))"
  by (simp add: Target_shape_def)

lemma leftInvI1:
  assumes "mi = - 1" "ms = ms0" "lme = E"
    "\<And>j s. j < i \<Longrightarrow> occ maxsub t r j s \<Longrightarrow> s + seqlen t ! nat j \<le> E \<Longrightarrow> False"
  shows "leftInv maxsub t r E ms0 i (mi, ms, lme)"
  unfolding leftInv_def prod.case using assms by blast

lemma leftInvI2:
  assumes "0 \<le> mi" "mi < i" "occ maxsub t r mi ms" "ms + seqlen t ! nat mi \<le> E"
    "lme = ms + seqlen t ! nat mi - 1"
    "\<And>j s. j < i \<Longrightarrow> occ maxsub t r j s \<Longrightarrow> s + seqlen t ! nat j \<le> E \<Longrightarrow>
       ms + seqlen t ! nat mi \<le> s + seqlen t ! nat j"
    "\<And>j s. j < i \<Longrightarrow> occ maxsub t r j s \<Longrightarrow> s + seqlen t ! nat j \<le> E \<Longrightarrow>
       s + seqlen t ! nat j = ms + seqlen t ! nat mi \<Longrightarrow> mi \<le> j"
  shows "leftInv maxsub t r E ms0 i (mi, ms, lme)"
  unfolding leftInv_def prod.case using assms by blast

lemma leftInvE:
  assumes "leftInv maxsub t r E ms0 i (mi, ms, lme)"
  obtains
    (none) "mi = - 1" "ms = ms0" "lme = E"
      "\<And>j s. j < i \<Longrightarrow> occ maxsub t r j s \<Longrightarrow> s + seqlen t ! nat j \<le> E \<Longrightarrow> False"
  | (some) "0 \<le> mi" "mi < i" "occ maxsub t r mi ms" "ms + seqlen t ! nat mi \<le> E"
      "lme = ms + seqlen t ! nat mi - 1"
      "\<And>j s. j < i \<Longrightarrow> occ maxsub t r j s \<Longrightarrow> s + seqlen t ! nat j \<le> E \<Longrightarrow>
         ms + seqlen t ! nat mi \<le> s + seqlen t ! nat j"
      "\<And>j s. j < i \<Longrightarrow> occ maxsub t r j s \<Longrightarrow> s + seqlen t ! nat j \<le> E \<Longrightarrow>
         s + seqlen t ! nat j = ms + seqlen t ! nat mi \<Longrightarrow> mi \<le> j"
  using assms unfolding leftInv_def prod.case by blast

lemma leftInv_bound: "leftInv maxsub t r E ms0 i (mi, ms, lme) \<Longrightarrow> lme \<le> E"
  by (erule leftInvE) simp_all

lemma leftInv_None:
  assumes inv: "leftInv maxsub t r E ms0 i (mi, ms, lme)"
    and i: "0 \<le> i" "i < seqcount t"
    and f: "find (matchesAt maxsub r (seq t ! nat i)) [0..lme - seqlen t ! nat i] = None"
  shows "leftInv maxsub t r E ms0 (i + 1) (mi, ms, lme)"
proof -
  have no: "\<And>s. occ maxsub t r i s \<Longrightarrow> lme < s + seqlen t ! nat i"
  proof -
    fix s assume o: "occ maxsub t r i s"
    then have "0 \<le> s" "matchesAt maxsub r (seq t ! nat i) s" by (simp_all add: occ_def)
    then have "\<not> s \<le> lme - seqlen t ! nat i" using f by (auto simp: find_upto_None)
    then show "lme < s + seqlen t ! nat i" by simp
  qed
  from inv show ?thesis
  proof (cases rule: leftInvE)
    case none
    show ?thesis
    proof (rule leftInvI1[OF none(1-3)])
      fix j s assume h: "j < i + 1" "occ maxsub t r j s" "s + seqlen t ! nat j \<le> E"
      show False
      proof (cases "j = i")
        case True
        then show ?thesis using h no[of s] none(3) by simp
      next
        case False
        then have "j < i" using h(1) by simp
        then show ?thesis using none(4) h by blast
      qed
    qed
  next
    case some
    have lt: "mi < i + 1" using some(2) by simp
    show ?thesis
    proof (rule leftInvI2[OF some(1) lt some(3-5)])
      fix j s assume h: "j < i + 1" "occ maxsub t r j s" "s + seqlen t ! nat j \<le> E"
      show "ms + seqlen t ! nat mi \<le> s + seqlen t ! nat j"
      proof (cases "j = i")
        case True
        then show ?thesis using no[of s] h some(5) by simp
      next
        case False
        then have "j < i" using h(1) by simp
        then show ?thesis using some(6) h by blast
      qed
    next
      fix j s assume h: "j < i + 1" "occ maxsub t r j s" "s + seqlen t ! nat j \<le> E"
        "s + seqlen t ! nat j = ms + seqlen t ! nat mi"
      show "mi \<le> j"
      proof (cases "j = i")
        case True
        then show ?thesis using some(2) by simp
      next
        case False
        then have "j < i" using h(1) by simp
        then show ?thesis using some(7) h by blast
      qed
    qed
  qed
qed

lemma leftInv_Some:
  assumes inv: "leftInv maxsub t r E ms0 i (mi, ms, lme)"
    and i: "0 \<le> i" "i < seqcount t" and E: "E \<le> int (length r)"
    and f: "find (matchesAt maxsub r (seq t ! nat i)) [0..lme - seqlen t ! nat i] = Some start"
  shows "leftInv maxsub t r E ms0 (i + 1) (i, start, start + seqlen t ! nat i - 1)"
proof -
  from find_upto_Some[OF f] have st: "0 \<le> start" "start + seqlen t ! nat i \<le> lme"
    "matchesAt maxsub r (seq t ! nat i) start"
    and first: "\<And>s. 0 \<le> s \<Longrightarrow> s < start \<Longrightarrow> \<not> matchesAt maxsub r (seq t ! nat i) s"
    by auto
  have lmeE: "lme \<le> E" using inv by (rule leftInv_bound)
  have o: "occ maxsub t r i start" using st i lmeE E by (simp add: occ_def)
  have sE: "start + seqlen t ! nat i \<le> E" using st(2) lmeE by simp
  have ge: "\<And>s. occ maxsub t r i s \<Longrightarrow> start \<le> s"
  proof -
    fix s assume "occ maxsub t r i s"
    then have "0 \<le> s" "matchesAt maxsub r (seq t ! nat i) s" by (simp_all add: occ_def)
    then show "start \<le> s" using first[of s] by force
  qed
  have old: "\<And>j s. j < i \<Longrightarrow> occ maxsub t r j s \<Longrightarrow> s + seqlen t ! nat j \<le> E \<Longrightarrow>
               lme < s + seqlen t ! nat j"
  proof -
    fix j s assume h: "j < i" "occ maxsub t r j s" "s + seqlen t ! nat j \<le> E"
    from inv show "lme < s + seqlen t ! nat j"
    proof (cases rule: leftInvE)
      case none
      then show ?thesis using h by blast
    next
      case some
      have "ms + seqlen t ! nat mi \<le> s + seqlen t ! nat j" using some(6) h by blast
      then show ?thesis using some(5) by simp
    qed
  qed
  have ii: "i < i + 1" by simp
  show ?thesis
  proof (rule leftInvI2[OF i(1) ii o sE refl])
    fix j s assume h: "j < i + 1" "occ maxsub t r j s" "s + seqlen t ! nat j \<le> E"
    show "start + seqlen t ! nat i \<le> s + seqlen t ! nat j"
    proof (cases "j = i")
      case True
      then show ?thesis using ge[of s] h by simp
    next
      case False
      then have "j < i" using h(1) by simp
      then show ?thesis using old[of j s] h st(2) by simp
    qed
  next
    fix j s assume h: "j < i + 1" "occ maxsub t r j s" "s + seqlen t ! nat j \<le> E"
      "s + seqlen t ! nat j = start + seqlen t ! nat i"
    show "i \<le> j"
    proof (cases "j = i")
      case True
      then show ?thesis by simp
    next
      case False
      then have "j < i" using h(1) by simp
      then show ?thesis using old[of j s] h st(2) by simp
    qed
  qed
qed

lemma findLeftmost_loop_inv:
  assumes "Target_shape t" "E \<le> int (length r)" "0 \<le> i" "i \<le> seqcount t"
    "leftInv maxsub t r E ms0 i st"
  shows "\<exists>st'. findLeftmost_loop maxsub t r i st = Inr st' \<and>
               leftInv maxsub t r E ms0 (seqcount t) st'"
  using assms(3-)
proof (induction "nat (seqcount t - i)" arbitrary: i st)
  case 0
  then have "i = seqcount t" by simp
  then show ?case using 0(4) by (subst findLeftmost_loop.simps) (simp split: prod.splits)
next
  case (Suc n)
  obtain mi ms lme where st: "st = (mi, ms, lme)" by (cases st) auto
  have lt: "i < seqcount t" using Suc(2) by simp
  have n: "n = nat (seqcount t - (i + 1))" using Suc(2) by simp
  have b: "0 \<le> i + 1" "i + 1 \<le> seqcount t" using Suc(3) lt by simp_all
  define lastStart where "lastStart = lme - seqlen t ! nat i"
  have len: "seqlen t ! nat i = int (length (seq t ! nat i))"
    using shape_len[OF assms(1) Suc(3) lt] .
  have inv: "leftInv maxsub t r E ms0 i (mi, ms, lme)" using Suc(5) st by simp
  have lme: "lme \<le> E" using inv by (rule leftInv_bound)
  have sc: "findLeftmost_scan maxsub r (seq t ! nat i) (seqlen t ! nat i) 0 lastStart =
            Inr (find (matchesAt maxsub r (seq t ! nat i)) [0..lastStart])"
    unfolding len
    by (rule findLeftmost_scan_find) (use lme assms(2) len in \<open>simp_all add: lastStart_def\<close>)
  show ?case
  proof (cases "find (matchesAt maxsub r (seq t ! nat i)) [0..lastStart]")
    case None
    have inv': "leftInv maxsub t r E ms0 (i + 1) st"
      unfolding st by (rule leftInv_None[OF inv Suc(3) lt]) (use None in \<open>simp add: lastStart_def\<close>)
    have "findLeftmost_loop maxsub t r i st = findLeftmost_loop maxsub t r (i + 1) st"
      using lt sc None
      by (subst findLeftmost_loop.simps) (simp add: findLeftmost_step_def st lastStart_def)
    then show ?thesis using Suc(1)[OF n b inv'] by simp
  next
    case (Some start)
    have inv': "leftInv maxsub t r E ms0 (i + 1) (i, start, start + seqlen t ! nat i - 1)"
      by (rule leftInv_Some[OF inv Suc(3) lt assms(2)]) (use Some in \<open>simp add: lastStart_def\<close>)
    have "findLeftmost_loop maxsub t r i st =
          findLeftmost_loop maxsub t r (i + 1) (i, start, start + seqlen t ! nat i - 1)"
      using lt sc Some
      by (subst findLeftmost_loop.simps) (simp add: findLeftmost_step_def st lastStart_def)
    then show ?thesis using Suc(1)[OF n b inv'] by simp
  qed
qed

subsection \<open>The outer loop of findRightmost\<close>

lemma rightInvI1:
  assumes "mi = - 1" "ms = ms0" "lms = L"
    "\<And>j s. j < i \<Longrightarrow> occ maxsub t r j s \<Longrightarrow> L \<le> s \<Longrightarrow> False"
  shows "rightInv maxsub t r L ms0 i (mi, ms, lms)"
  unfolding rightInv_def prod.case using assms by blast

lemma rightInvI2:
  assumes "0 \<le> mi" "mi < i" "occ maxsub t r mi ms" "L \<le> ms" "lms = ms + 1"
    "\<And>j s. j < i \<Longrightarrow> occ maxsub t r j s \<Longrightarrow> L \<le> s \<Longrightarrow> s \<le> ms"
    "\<And>j s. j < i \<Longrightarrow> occ maxsub t r j s \<Longrightarrow> L \<le> s \<Longrightarrow> s = ms \<Longrightarrow> mi \<le> j"
  shows "rightInv maxsub t r L ms0 i (mi, ms, lms)"
  unfolding rightInv_def prod.case using assms by blast

lemma rightInvE:
  assumes "rightInv maxsub t r L ms0 i (mi, ms, lms)"
  obtains
    (none) "mi = - 1" "ms = ms0" "lms = L"
      "\<And>j s. j < i \<Longrightarrow> occ maxsub t r j s \<Longrightarrow> L \<le> s \<Longrightarrow> False"
  | (some) "0 \<le> mi" "mi < i" "occ maxsub t r mi ms" "L \<le> ms" "lms = ms + 1"
      "\<And>j s. j < i \<Longrightarrow> occ maxsub t r j s \<Longrightarrow> L \<le> s \<Longrightarrow> s \<le> ms"
      "\<And>j s. j < i \<Longrightarrow> occ maxsub t r j s \<Longrightarrow> L \<le> s \<Longrightarrow> s = ms \<Longrightarrow> mi \<le> j"
  using assms unfolding rightInv_def prod.case by blast

lemma rightInv_bound: "rightInv maxsub t r L ms0 i (mi, ms, lms) \<Longrightarrow> L \<le> lms"
  by (erule rightInvE) simp_all

lemma rightInv_None:
  assumes inv: "rightInv maxsub t r L ms0 i (mi, ms, lms)"
    and i: "0 \<le> i" "i < seqcount t"
    and f: "find (matchesAt maxsub r (seq t ! nat i))
              (rev [lms..int (length r) - seqlen t ! nat i]) = None"
  shows "rightInv maxsub t r L ms0 (i + 1) (mi, ms, lms)"
proof -
  have no: "\<And>s. occ maxsub t r i s \<Longrightarrow> s < lms"
  proof -
    fix s assume o: "occ maxsub t r i s"
    then have "s \<le> int (length r) - seqlen t ! nat i" "matchesAt maxsub r (seq t ! nat i) s"
      by (simp_all add: occ_def)
    then have "\<not> lms \<le> s" using f by (auto simp: find_rev_upto_None)
    then show "s < lms" by simp
  qed
  from inv show ?thesis
  proof (cases rule: rightInvE)
    case none
    show ?thesis
    proof (rule rightInvI1[OF none(1-3)])
      fix j s assume h: "j < i + 1" "occ maxsub t r j s" "L \<le> s"
      show False
      proof (cases "j = i")
        case True
        then show ?thesis using h no[of s] none(3) by simp
      next
        case False
        then have "j < i" using h(1) by simp
        then show ?thesis using none(4) h by blast
      qed
    qed
  next
    case some
    have lt: "mi < i + 1" using some(2) by simp
    show ?thesis
    proof (rule rightInvI2[OF some(1) lt some(3-5)])
      fix j s assume h: "j < i + 1" "occ maxsub t r j s" "L \<le> s"
      show "s \<le> ms"
      proof (cases "j = i")
        case True
        then show ?thesis using no[of s] h some(5) by simp
      next
        case False
        then have "j < i" using h(1) by simp
        then show ?thesis using some(6) h by blast
      qed
    next
      fix j s assume h: "j < i + 1" "occ maxsub t r j s" "L \<le> s" "s = ms"
      show "mi \<le> j"
      proof (cases "j = i")
        case True
        then show ?thesis using some(2) by simp
      next
        case False
        then have "j < i" using h(1) by simp
        then show ?thesis using some(7) h by blast
      qed
    qed
  qed
qed

lemma rightInv_Some:
  assumes inv: "rightInv maxsub t r L ms0 i (mi, ms, lms)"
    and i: "0 \<le> i" "i < seqcount t" and L: "0 \<le> L"
    and f: "find (matchesAt maxsub r (seq t ! nat i))
              (rev [lms..int (length r) - seqlen t ! nat i]) = Some start"
  shows "rightInv maxsub t r L ms0 (i + 1) (i, start, start + 1)"
proof -
  from find_rev_upto_Some[OF f] have st: "lms \<le> start"
    "start \<le> int (length r) - seqlen t ! nat i"
    "matchesAt maxsub r (seq t ! nat i) start"
    and first: "\<And>s. start < s \<Longrightarrow> s \<le> int (length r) - seqlen t ! nat i \<Longrightarrow>
                  \<not> matchesAt maxsub r (seq t ! nat i) s"
    by auto
  have lmsL: "L \<le> lms" using inv by (rule rightInv_bound)
  have o: "occ maxsub t r i start" using st i lmsL L by (simp add: occ_def)
  have sL: "L \<le> start" using st(1) lmsL by simp
  have ge: "\<And>s. occ maxsub t r i s \<Longrightarrow> s \<le> start"
  proof -
    fix s assume "occ maxsub t r i s"
    then have "s \<le> int (length r) - seqlen t ! nat i" "matchesAt maxsub r (seq t ! nat i) s"
      by (simp_all add: occ_def)
    then show "s \<le> start" using first[of s] by force
  qed
  have old: "\<And>j s. j < i \<Longrightarrow> occ maxsub t r j s \<Longrightarrow> L \<le> s \<Longrightarrow> s < lms"
  proof -
    fix j s assume h: "j < i" "occ maxsub t r j s" "L \<le> s"
    from inv show "s < lms"
    proof (cases rule: rightInvE)
      case none
      then show ?thesis using h by blast
    next
      case some
      have "s \<le> ms" using some(6) h by blast
      then show ?thesis using some(5) by simp
    qed
  qed
  have ii: "i < i + 1" by simp
  show ?thesis
  proof (rule rightInvI2[OF i(1) ii o sL refl])
    fix j s assume h: "j < i + 1" "occ maxsub t r j s" "L \<le> s"
    show "s \<le> start"
    proof (cases "j = i")
      case True
      then show ?thesis using ge[of s] h by simp
    next
      case False
      then have "j < i" using h(1) by simp
      then show ?thesis using old[of j s] h st(1) by simp
    qed
  next
    fix j s assume h: "j < i + 1" "occ maxsub t r j s" "L \<le> s" "s = start"
    show "i \<le> j"
    proof (cases "j = i")
      case True
      then show ?thesis by simp
    next
      case False
      then have "j < i" using h(1) by simp
      then show ?thesis using old[of j s] h st(1) by simp
    qed
  qed
qed

lemma findRightmost_loop_inv:
  assumes "Target_shape t" "0 \<le> L" "0 \<le> i" "i \<le> seqcount t"
    "rightInv maxsub t r L ms0 i st"
  shows "\<exists>st'. findRightmost_loop maxsub t r (int (length r)) i st = Inr st' \<and>
               rightInv maxsub t r L ms0 (seqcount t) st'"
  using assms(3-)
proof (induction "nat (seqcount t - i)" arbitrary: i st)
  case 0
  then have "i = seqcount t" by simp
  then show ?case using 0(4) by (subst findRightmost_loop.simps) (simp split: prod.splits)
next
  case (Suc n)
  obtain mi ms lms where st: "st = (mi, ms, lms)" by (cases st) auto
  have lt: "i < seqcount t" using Suc(2) by simp
  have n: "n = nat (seqcount t - (i + 1))" using Suc(2) by simp
  have b: "0 \<le> i + 1" "i + 1 \<le> seqcount t" using Suc(3) lt by simp_all
  define firstStart where "firstStart = int (length r) - seqlen t ! nat i"
  have len: "seqlen t ! nat i = int (length (seq t ! nat i))"
    using shape_len[OF assms(1) Suc(3) lt] .
  have inv: "rightInv maxsub t r L ms0 i (mi, ms, lms)" using Suc(5) st by simp
  have lms: "0 \<le> lms" using rightInv_bound[OF inv] assms(2) by simp
  have sc: "findRightmost_scan maxsub r (seq t ! nat i) (seqlen t ! nat i) firstStart lms =
            Inr (find (matchesAt maxsub r (seq t ! nat i)) (rev [lms..firstStart]))"
    unfolding len
    by (rule findRightmost_scan_find) (use lms len in \<open>simp_all add: firstStart_def\<close>)
  show ?case
  proof (cases "find (matchesAt maxsub r (seq t ! nat i)) (rev [lms..firstStart])")
    case None
    have inv': "rightInv maxsub t r L ms0 (i + 1) st"
      unfolding st by (rule rightInv_None[OF inv Suc(3) lt]) (use None in \<open>simp add: firstStart_def\<close>)
    have "findRightmost_loop maxsub t r (int (length r)) i st =
          findRightmost_loop maxsub t r (int (length r)) (i + 1) st"
      using lt sc None
      by (subst findRightmost_loop.simps) (simp add: findRightmost_step_def st firstStart_def)
    then show ?thesis using Suc(1)[OF n b inv'] by simp
  next
    case (Some start)
    have inv': "rightInv maxsub t r L ms0 (i + 1) (i, start, start + 1)"
      by (rule rightInv_Some[OF inv Suc(3) lt assms(2)]) (use Some in \<open>simp add: firstStart_def\<close>)
    have "findRightmost_loop maxsub t r (int (length r)) i st =
          findRightmost_loop maxsub t r (int (length r)) (i + 1) (i, start, start + 1)"
      using lt sc Some
      by (subst findRightmost_loop.simps) (simp add: findRightmost_step_def st firstStart_def)
    then show ?thesis using Suc(1)[OF n b inv'] by simp
  qed
qed

subsection \<open>What the constructor of Target establishes\<close>

lemma toupper_idem: "toupper (toupper c) = toupper c"
proof (cases "97 \<le> (of_char c :: nat) \<and> (of_char c :: nat) \<le> 122")
  case True
  then have "(of_char c :: nat) - 32 < 256" by linarith
  then have "(of_char (char_of ((of_char c :: nat) - 32)) :: nat) = of_char c - 32"
    by (simp only: of_char_of mod_less)
  moreover have "\<not> 97 \<le> (of_char c :: nat) - 32" using True by linarith
  ultimately have "\<not> (97 \<le> (of_char (char_of ((of_char c :: nat) - 32)) :: nat))"
    by simp
  then show ?thesis using True by (simp add: toupper_def)
next
  case False
  then show ?thesis by (auto simp add: toupper_def)
qed

lemma toupper_ACGT:
  "isACGT (toupper c) \<Longrightarrow> toupper c \<in> {CHR ''A'', CHR ''C'', CHR ''G'', CHR ''T''}"
  by (auto simp: isACGT_def toupper_idem Let_def)

lemma getDelimitedStrings_loop_ne: "getDelimitedStrings_loop d v s \<noteq> []"
  by (induction s arbitrary: v) auto

lemma getDelimitedStrings_loop_chars:
  "x \<in> set (getDelimitedStrings_loop d v s) \<Longrightarrow> set x \<subseteq> set v \<union> set s"
  by (induction s arbitrary: v) (fastforce split: if_splits)+

lemma getDelimitedStrings_ne: "getDelimitedStrings s d \<noteq> []"
  by (simp add: getDelimitedStrings_def getDelimitedStrings_loop_ne)

lemma getDelimitedStrings_chars: "x \<in> set (getDelimitedStrings s d) \<Longrightarrow> set x \<subseteq> set s"
  using getDelimitedStrings_loop_chars[of x d "[]" s] by (simp add: getDelimitedStrings_def)

lemma minmax_loop_props:
  assumes "mn \<le> mx" "minmax_loop xs (mn, mx) = (a, b)"
  shows "a \<le> mn \<and> mx \<le> b \<and> (\<forall>x \<in> set xs. a \<le> int (length x) \<and> int (length x) \<le> b) \<and>
         (a = mn \<or> a \<in> (\<lambda>x. int (length x)) ` set xs) \<and>
         (b = mx \<or> b \<in> (\<lambda>x. int (length x)) ` set xs)"
  using assms
proof (induction xs arbitrary: mn mx)
  case Nil
  then show ?case by simp
next
  case (Cons x xs)
  show ?case
  proof (cases "int (length x) < mn")
    case True
    then have le: "int (length x) \<le> mx" using Cons(2) by simp
    have "minmax_loop xs (int (length x), mx) = (a, b)" using Cons(3) True by simp
    from Cons(1)[OF le this] True le show ?thesis by auto
  next
    case False
    show ?thesis
    proof (cases "int (length x) > mx")
      case True
      then have le: "mn \<le> int (length x)" using Cons(2) by simp
      have "minmax_loop xs (mn, int (length x)) = (a, b)" using Cons(3) True False by simp
      from Cons(1)[OF le this] True le show ?thesis by auto
    next
      case nb: False
      have "minmax_loop xs (mn, mx) = (a, b)" using Cons(3) False nb by simp
      from Cons(1)[OF Cons(2) this] False nb show ?thesis by auto
    qed
  qed
qed

lemma Target_ctor_Inr:
  assumes "Target_ctor targetString = Inr t"
  shows "\<exists>neg s ts a b.
     neg = (targetString \<noteq> [] \<and> hd (toupperSequence targetString) = CHR ''-'') \<and>
     s = (if neg then drop 1 (toupperSequence targetString) else toupperSequence targetString) \<and>
     ts = getDelimitedStrings s (CHR ''|'') \<and>
     minmax_loop (tl ts) (int (length (hd ts)), int (length (hd ts))) = (a, b) \<and>
     8 \<le> a \<and> (\<forall>x \<in> set ts. isAllACGT x) \<and>
     t = \<lparr>want = \<not> neg, minseqlen = a, maxseqlen = b, seqcount = int (length ts),
          seqlen = map (\<lambda>x. int (length x)) ts, seq = ts\<rparr>"
proof -
  define s0 where "s0 = toupperSequence targetString"
  define neg where "neg = (length s0 > 0 \<and> s0 ! 0 = CHR ''-'')"
  define s where "s = (if neg then drop 1 s0 else s0)"
  define ts where "ts = getDelimitedStrings s (CHR ''|'')"
  define mm where "mm = minmax_loop (tl ts) (int (length (hd ts)), int (length (hd ts)))"
  have c: "Target_ctor targetString =
     (if fst mm < MIN_TARGET_LENGTH
         then Inl (RuntimeError (''invalid sequence length in '' @ targetString))
         else (case find (\<lambda>x. \<not> isAllACGT x) ts of
                 Some bad \<Rightarrow> Inl (RuntimeError (''invalid character in '' @ bad))
               | None \<Rightarrow>
                   Inr \<lparr>want = \<not> neg, minseqlen = fst mm, maxseqlen = snd mm,
                        seqcount = int (length ts),
                        seqlen = map (\<lambda>x. int (length x)) ts, seq = ts\<rparr>))"
    by (simp only: Target_ctor_def Let_def s0_def neg_def s_def ts_def mm_def)
  have n: "neg = (targetString \<noteq> [] \<and> hd (toupperSequence targetString) = CHR ''-'')"
    by (cases targetString) (auto simp: neg_def s0_def toupperSequence_def hd_conv_nth)
  have 8: "\<not> fst mm < MIN_TARGET_LENGTH" using assms c by (auto split: if_splits)
  then have f: "find (\<lambda>x. \<not> isAllACGT x) ts = None" using assms c
    by (auto split: if_splits option.splits)
  then have all: "\<forall>x \<in> set ts. isAllACGT x" by (auto simp: find_None_iff)
  have t: "t = \<lparr>want = \<not> neg, minseqlen = fst mm, maxseqlen = snd mm,
                        seqcount = int (length ts),
                        seqlen = map (\<lambda>x. int (length x)) ts, seq = ts\<rparr>"
    using assms c 8 f by simp
  show ?thesis
    using n 8 all t unfolding MIN_TARGET_LENGTH_def
    by (intro exI[of _ neg] exI[of _ s] exI[of _ ts] exI[of _ "fst mm"] exI[of _ "snd mm"])
       (simp add: s_def s0_def ts_def mm_def)
qed

lemma Target_ctor_valid:
  assumes "Target_ctor targetString = Inr t"
  shows "Target_valid t" "8 \<le> minseqlen t"
proof -
  from Target_ctor_Inr[OF assms] obtain neg s ts a b where
    s: "s = (if neg then drop 1 (toupperSequence targetString) else toupperSequence targetString)"
    and ts: "ts = getDelimitedStrings s (CHR ''|'')"
    and mm: "minmax_loop (tl ts) (int (length (hd ts)), int (length (hd ts))) = (a, b)"
    and a8: "8 \<le> a" and all: "\<forall>x \<in> set ts. isAllACGT x"
    and t: "t = \<lparr>want = \<not> neg, minseqlen = a, maxseqlen = b, seqcount = int (length ts),
          seqlen = map (\<lambda>x. int (length x)) ts, seq = ts\<rparr>"
    by blast
  have ne: "ts \<noteq> []" using ts getDelimitedStrings_ne by simp
  then have hts: "ts = hd ts # tl ts" by simp
  have p: "a \<le> int (length (hd ts)) \<and> int (length (hd ts)) \<le> b \<and>
         (\<forall>x \<in> set (tl ts). a \<le> int (length x) \<and> int (length x) \<le> b) \<and>
         (a = int (length (hd ts)) \<or> a \<in> (\<lambda>x. int (length x)) ` set (tl ts)) \<and>
         (b = int (length (hd ts)) \<or> b \<in> (\<lambda>x. int (length x)) ` set (tl ts))"
    using minmax_loop_props[OF _ mm] by simp
  have setts: "set ts = insert (hd ts) (set (tl ts))" using hts by (metis list.simps(15))
  have bounds: "\<forall>x \<in> set ts. a \<le> int (length x) \<and> int (length x) \<le> b"
    using p setts by auto
  have ain: "a \<in> (\<lambda>x. int (length x)) ` set ts" using p setts by auto
  have bin: "b \<in> (\<lambda>x. int (length x)) ` set ts" using p setts by auto
  have up: "set s \<subseteq> range toupper"
    using s by (auto simp: toupperSequence_def dest!: in_set_dropD)
  have chars: "\<forall>c \<in> set ts. set c \<subseteq> {CHR ''A'', CHR ''C'', CHR ''G'', CHR ''T''}"
  proof (intro ballI subsetI)
    fix c x assume c: "c \<in> set ts" and x: "x \<in> set c"
    have "x \<in> set s" using getDelimitedStrings_chars[of c s] c x ts by auto
    then obtain y where y: "x = toupper y" using up by auto
    have "isACGT x" using all c x by (auto simp: isAllACGT_def list_all_iff)
    then show "x \<in> {CHR ''A'', CHR ''C'', CHR ''G'', CHR ''T''}"
      using toupper_ACGT[of y] y by simp
  qed
  have len8: "\<forall>c \<in> set ts. 8 \<le> length c" using bounds a8 by auto
  show "Target_valid t"
    unfolding Target_valid_def Target_shape_def using t ne chars len8 ain bin bounds by auto
  show "8 \<le> minseqlen t" using t a8 by simp
qed

subsection \<open>The results of the searches\<close>

lemma Target_shape_count: "Target_shape t \<Longrightarrow> 0 \<le> seqcount t"
  by (simp add: Target_shape_def)

lemma occ_occursAt:
  assumes "Target_shape t"
  shows "occ maxsub t r j s \<longleftrightarrow> 0 \<le> j \<and> j < seqcount t \<and> occursAt maxsub r (seq t ! nat j) s"
proof (cases "0 \<le> j \<and> j < seqcount t")
  case False
  then show ?thesis by (auto simp: occ_def)
next
  case True
  then have len: "seqlen t ! nat j = int (length (seq t ! nat j))"
    using shape_len[OF assms] by simp
  show ?thesis
  proof (cases "0 \<le> s \<and> s + int (length (seq t ! nat j)) \<le> int (length r)")
    case False
    then show ?thesis using len by (auto simp: occ_def occursAt_def)
  next
    case b: True
    then have "isMatch maxsub (r, s) (seq t ! nat j, 0) (int (length (seq t ! nat j))) =
               Inr (matchesAt maxsub r (seq t ! nat j) s)"
      using isMatch_at[of s "seq t ! nat j" r maxsub] by (simp add: matchesAt_def)
    then show ?thesis using True b len by (auto simp: occ_def occursAt_def)
  qed
qed

lemma findLeftmost_inv:
  assumes "Target_shape t" "0 \<le> rightpad"
  shows "\<exists>mi ms lme. findLeftmost maxsub t r (int (length r)) rightpad ms0 = Inr (0 \<le> mi, mi, ms) \<and>
           leftInv maxsub t r (int (length r) - rightpad) ms0 (seqcount t) (mi, ms, lme)"
proof -
  let ?E = "int (length r) - rightpad"
  have init: "leftInv maxsub t r ?E ms0 0 (- 1, ms0, ?E)"
    by (rule leftInvI1) (simp_all add: occ_def)
  have E: "?E \<le> int (length r)" using assms(2) by simp
  from findLeftmost_loop_inv[OF assms(1) E _ Target_shape_count[OF assms(1)] init]
  obtain st' where st': "findLeftmost_loop maxsub t r 0 (- 1, ms0, ?E) = Inr st'"
    "leftInv maxsub t r ?E ms0 (seqcount t) st'" by auto
  obtain mi ms lme where "st' = (mi, ms, lme)" by (cases st') auto
  then show ?thesis using st' by (auto simp: findLeftmost_def)
qed

lemma findLeftmost_cases:
  assumes "Target_shape t" "0 \<le> rightpad"
  obtains
    (notfound) "findLeftmost maxsub t r (int (length r)) rightpad ms0 = Inr (False, - 1, ms0)"
      "\<And>j s. occ maxsub t r j s \<Longrightarrow> s + seqlen t ! nat j \<le> int (length r) - rightpad \<Longrightarrow> False"
  | (found) mi ms where
      "findLeftmost maxsub t r (int (length r)) rightpad ms0 = Inr (True, mi, ms)"
      "occ maxsub t r mi ms" "ms + seqlen t ! nat mi \<le> int (length r) - rightpad"
      "\<And>j s. occ maxsub t r j s \<Longrightarrow> s + seqlen t ! nat j \<le> int (length r) - rightpad \<Longrightarrow>
         ms + seqlen t ! nat mi \<le> s + seqlen t ! nat j"
      "\<And>j s. occ maxsub t r j s \<Longrightarrow> s + seqlen t ! nat j \<le> int (length r) - rightpad \<Longrightarrow>
         s + seqlen t ! nat j = ms + seqlen t ! nat mi \<Longrightarrow> mi \<le> j"
proof -
  from findLeftmost_inv[OF assms, of maxsub r ms0] obtain mi ms lme where
    f: "findLeftmost maxsub t r (int (length r)) rightpad ms0 = Inr (0 \<le> mi, mi, ms)"
    and inv: "leftInv maxsub t r (int (length r) - rightpad) ms0 (seqcount t) (mi, ms, lme)"
    by blast
  have lt: "\<And>j s. occ maxsub t r j s \<Longrightarrow> j < seqcount t" by (simp add: occ_def)
  from inv show ?thesis
  proof (cases rule: leftInvE)
    case none
    show ?thesis
    proof (rule notfound)
      show "findLeftmost maxsub t r (int (length r)) rightpad ms0 = Inr (False, - 1, ms0)"
        using f none(1,2) by simp
    next
      fix j s assume "occ maxsub t r j s" "s + seqlen t ! nat j \<le> int (length r) - rightpad"
      then show False using none(4)[OF lt] by blast
    qed
  next
    case some
    show ?thesis
    proof (rule found[of mi ms])
      show "findLeftmost maxsub t r (int (length r)) rightpad ms0 = Inr (True, mi, ms)"
        using f some(1) by simp
    next
      fix j s assume h: "occ maxsub t r j s" "s + seqlen t ! nat j \<le> int (length r) - rightpad"
      then show "ms + seqlen t ! nat mi \<le> s + seqlen t ! nat j" using some(6)[OF lt] by blast
    next
      fix j s assume h: "occ maxsub t r j s" "s + seqlen t ! nat j \<le> int (length r) - rightpad"
        "s + seqlen t ! nat j = ms + seqlen t ! nat mi"
      then show "mi \<le> j" using some(7)[OF lt] by blast
    qed (use some in simp_all)
  qed
qed

lemma findRightmost_inv:
  assumes "Target_shape t" "0 \<le> leftpad"
  shows "\<exists>mi ms lms. findRightmost maxsub t r (int (length r)) leftpad ms0 = Inr (0 \<le> mi, mi, ms) \<and>
           rightInv maxsub t r leftpad ms0 (seqcount t) (mi, ms, lms)"
proof -
  have init: "rightInv maxsub t r leftpad ms0 0 (- 1, ms0, leftpad)"
    by (rule rightInvI1) (simp_all add: occ_def)
  from findRightmost_loop_inv[OF assms _ Target_shape_count[OF assms(1)] init]
  obtain st' where st': "findRightmost_loop maxsub t r (int (length r)) 0 (- 1, ms0, leftpad) = Inr st'"
    "rightInv maxsub t r leftpad ms0 (seqcount t) st'" by auto
  obtain mi ms lms where "st' = (mi, ms, lms)" by (cases st') auto
  then show ?thesis using st' by (auto simp: findRightmost_def)
qed

lemma findRightmost_cases:
  assumes "Target_shape t" "0 \<le> leftpad"
  obtains
    (notfound) "findRightmost maxsub t r (int (length r)) leftpad ms0 = Inr (False, - 1, ms0)"
      "\<And>j s. occ maxsub t r j s \<Longrightarrow> leftpad \<le> s \<Longrightarrow> False"
  | (found) mi ms where
      "findRightmost maxsub t r (int (length r)) leftpad ms0 = Inr (True, mi, ms)"
      "occ maxsub t r mi ms" "leftpad \<le> ms"
      "\<And>j s. occ maxsub t r j s \<Longrightarrow> leftpad \<le> s \<Longrightarrow> s \<le> ms"
      "\<And>j s. occ maxsub t r j s \<Longrightarrow> leftpad \<le> s \<Longrightarrow> s = ms \<Longrightarrow> mi \<le> j"
proof -
  from findRightmost_inv[OF assms, of maxsub r ms0] obtain mi ms lms where
    f: "findRightmost maxsub t r (int (length r)) leftpad ms0 = Inr (0 \<le> mi, mi, ms)"
    and inv: "rightInv maxsub t r leftpad ms0 (seqcount t) (mi, ms, lms)"
    by blast
  have lt: "\<And>j s. occ maxsub t r j s \<Longrightarrow> j < seqcount t" by (simp add: occ_def)
  from inv show ?thesis
  proof (cases rule: rightInvE)
    case none
    show ?thesis
    proof (rule notfound)
      show "findRightmost maxsub t r (int (length r)) leftpad ms0 = Inr (False, - 1, ms0)"
        using f none(1,2) by simp
    next
      fix j s assume "occ maxsub t r j s" "leftpad \<le> s"
      then show False using none(4)[OF lt] by blast
    qed
  next
    case some
    show ?thesis
    proof (rule found[of mi ms])
      show "findRightmost maxsub t r (int (length r)) leftpad ms0 = Inr (True, mi, ms)"
        using f some(1) by simp
    next
      fix j s assume h: "occ maxsub t r j s" "leftpad \<le> s"
      then show "s \<le> ms" using some(6)[OF lt] by blast
    next
      fix j s assume h: "occ maxsub t r j s" "leftpad \<le> s" "s = ms"
      then show "mi \<le> j" using some(7)[OF lt] by blast
    qed (use some in simp_all)
  qed
qed

lemma findLeftmost_leftmost:
  assumes "Target_shape t" "0 \<le> pad"
  shows "findLeftmost maxsub t r (int (length r)) pad ms0 =
         (case leftmost maxsub t r pad of
            None \<Rightarrow> Inr (False, - 1, ms0)
          | Some (mi, ms) \<Rightarrow> Inr (True, mi, ms))"
proof -
  let ?E = "int (length r) - pad"
  show ?thesis
  proof (cases rule: findLeftmost_cases[where maxsub=maxsub and r=r and ?ms0.0=0, OF assms, case_names notfound found])
    case notfound
    then have l: "leftmost maxsub t r pad = None" by (simp add: leftmost_def)
    show ?thesis
    proof (cases rule: findLeftmost_cases[where maxsub=maxsub and r=r and ?ms0.0=ms0, OF assms, case_names notfound found])
      case notfound
      then show ?thesis using l by simp
    next
      case (found mi ms)
      then show ?thesis using notfound(2) by blast
    qed
  next
    case (found mi ms)
    then have l: "leftmost maxsub t r pad = Some (mi, ms)" by (simp add: leftmost_def)
    show ?thesis
    proof (cases rule: findLeftmost_cases[where maxsub=maxsub and r=r and ?ms0.0=ms0, OF assms, case_names notfound found])
      case notfound
      then show ?thesis using found(2,3) by blast
    next
      case f': (found mi' ms')
      have e1: "ms + seqlen t ! nat mi \<le> ms' + seqlen t ! nat mi'"
        using found(4)[OF f'(2,3)] .
      have e2: "ms' + seqlen t ! nat mi' \<le> ms + seqlen t ! nat mi"
        using f'(4)[OF found(2,3)] .
      have e: "ms' + seqlen t ! nat mi' = ms + seqlen t ! nat mi" using e1 e2 by simp
      have "mi \<le> mi'" using found(5)[OF f'(2,3) e] .
      moreover have "mi' \<le> mi" using f'(5)[OF found(2,3) e[symmetric]] .
      ultimately have "mi' = mi" by simp
      then have "ms' = ms" using e by simp
      then show ?thesis using f'(1) l \<open>mi' = mi\<close> by simp
    qed
  qed
qed

lemma leftmost_cases:
  assumes "Target_shape t" "0 \<le> pad"
  obtains
    (notfound) "leftmost maxsub t r pad = None"
      "\<And>j s. occ maxsub t r j s \<Longrightarrow> s + seqlen t ! nat j \<le> int (length r) - pad \<Longrightarrow> False"
  | (found) mi ms where
      "leftmost maxsub t r pad = Some (mi, ms)"
      "occ maxsub t r mi ms" "ms + seqlen t ! nat mi \<le> int (length r) - pad"
      "\<And>j s. occ maxsub t r j s \<Longrightarrow> s + seqlen t ! nat j \<le> int (length r) - pad \<Longrightarrow>
         ms + seqlen t ! nat mi \<le> s + seqlen t ! nat j"
      "\<And>j s. occ maxsub t r j s \<Longrightarrow> s + seqlen t ! nat j \<le> int (length r) - pad \<Longrightarrow>
         s + seqlen t ! nat j = ms + seqlen t ! nat mi \<Longrightarrow> mi \<le> j"
proof (cases rule: findLeftmost_cases[where maxsub=maxsub and r=r and ?ms0.0=0, OF assms, case_names notfound found])
  case notfound
  show ?thesis
    by (rule that(1)) (use notfound in \<open>simp_all add: leftmost_def\<close>)
next
  case (found mi ms)
  show ?thesis
    by (rule that(2)[of mi ms]) (use found in \<open>simp_all add: leftmost_def\<close>)
qed

lemma findRightmost_rightmost:
  assumes "Target_shape t" "0 \<le> pad"
  shows "findRightmost maxsub t r (int (length r)) pad ms0 =
         (case rightmost maxsub t r pad of
            None \<Rightarrow> Inr (False, - 1, ms0)
          | Some (mi, ms) \<Rightarrow> Inr (True, mi, ms))"
proof (cases rule: findRightmost_cases[where maxsub=maxsub and r=r and ?ms0.0=0, OF assms, case_names notfound found])
  case notfound
  then have l: "rightmost maxsub t r pad = None" by (simp add: rightmost_def)
  show ?thesis
  proof (cases rule: findRightmost_cases[where maxsub=maxsub and r=r and ?ms0.0=ms0, OF assms, case_names notfound found])
    case notfound
    then show ?thesis using l by simp
  next
    case (found mi ms)
    then show ?thesis using notfound(2) by blast
  qed
next
  case (found mi ms)
  then have l: "rightmost maxsub t r pad = Some (mi, ms)" by (simp add: rightmost_def)
  show ?thesis
  proof (cases rule: findRightmost_cases[where maxsub=maxsub and r=r and ?ms0.0=ms0, OF assms, case_names notfound found])
    case notfound
    then show ?thesis using found(2,3) by blast
  next
    case f': (found mi' ms')
    have e1: "ms' \<le> ms" using found(4)[OF f'(2,3)] .
    have e2: "ms \<le> ms'" using f'(4)[OF found(2,3)] .
    have e: "ms' = ms" using e1 e2 by simp
    have "mi \<le> mi'" using found(5)[OF f'(2,3) e] .
    moreover have "mi' \<le> mi" using f'(5)[OF found(2,3) e[symmetric]] .
    ultimately have "mi' = mi" by simp
    then show ?thesis using f'(1) l e by simp
  qed
qed

lemma rightmost_cases:
  assumes "Target_shape t" "0 \<le> pad"
  obtains
    (notfound) "rightmost maxsub t r pad = None"
      "\<And>j s. occ maxsub t r j s \<Longrightarrow> pad \<le> s \<Longrightarrow> False"
  | (found) mi ms where
      "rightmost maxsub t r pad = Some (mi, ms)"
      "occ maxsub t r mi ms" "pad \<le> ms"
      "\<And>j s. occ maxsub t r j s \<Longrightarrow> pad \<le> s \<Longrightarrow> s \<le> ms"
      "\<And>j s. occ maxsub t r j s \<Longrightarrow> pad \<le> s \<Longrightarrow> s = ms \<Longrightarrow> mi \<le> j"
proof (cases rule: findRightmost_cases[where maxsub=maxsub and r=r and ?ms0.0=0, OF assms, case_names notfound found])
  case notfound
  show ?thesis
    by (rule that(1)) (use notfound in \<open>simp_all add: rightmost_def\<close>)
next
  case (found mi ms)
  show ?thesis
    by (rule that(2)[of mi ms]) (use found in \<open>simp_all add: rightmost_def\<close>)
qed

lemma TargetPair_ctor_Inr:
  assumes "TargetPair_ctor inLabel l r = Inr tp"
  shows "Target_ctor l = Inr (left tp)" "Target_ctor r = Inr (right tp)" "label tp = inLabel"
    "inLabel \<noteq> []" "want (left tp) \<or> want (right tp)"
  using assms
  by (auto simp: TargetPair_ctor_def bindE_def split: sum.splits if_splits)

lemma occ_bounds:
  assumes "Target_valid t" "occ maxsub t r j s"
  shows "0 \<le> j" "j < seqcount t" "0 \<le> s" "s + seqlen t ! nat j \<le> int (length r)"
    "8 \<le> seqlen t ! nat j" "seqlen t ! nat j = int (length (seq t ! nat j))"
    "nat j < length (seq t)"
proof -
  show b: "0 \<le> j" "j < seqcount t" "0 \<le> s" "s + seqlen t ! nat j \<le> int (length r)"
    using assms(2) by (simp_all add: occ_def)
  have sh: "Target_shape t" using assms(1) by (simp add: Target_valid_def)
  show len: "seqlen t ! nat j = int (length (seq t ! nat j))" using shape_len[OF sh b(1,2)] .
  show n: "nat j < length (seq t)" using b sh by (simp add: Target_shape_def)
  then have "seq t ! nat j \<in> set (seq t)" by simp
  then have "8 \<le> length (seq t ! nat j)" using assms(1) by (simp add: Target_valid_def)
  then show "8 \<le> seqlen t ! nat j" using len by simp
qed

lemma Target_valid_minmax:
  assumes "Target_valid t"
  shows "8 \<le> minseqlen t" "8 \<le> maxseqlen t" "minseqlen t \<le> maxseqlen t"
proof -
  have sh: "seqlen t = map (\<lambda>x. int (length x)) (seq t)"
    using assms by (simp add: Target_valid_def Target_shape_def)
  have all8: "\<forall>n \<in> set (seqlen t). 8 \<le> n" using assms unfolding sh
    by (auto simp: Target_valid_def)
  have mn: "minseqlen t \<in> set (seqlen t)" and mx: "maxseqlen t \<in> set (seqlen t)"
    and b: "\<forall>n \<in> set (seqlen t). minseqlen t \<le> n \<and> n \<le> maxseqlen t"
    using assms by (simp_all add: Target_valid_def)
  show "8 \<le> minseqlen t" using all8 mn by blast
  show "8 \<le> maxseqlen t" using all8 mx by blast
  show "minseqlen t \<le> maxseqlen t" using b mn by blast
qed

subsection \<open>The condition of findMatch\<close>

lemma findMatch_cond_branch:
  "findMatch_cond maxsub tp r s =
     (if want (left tp) then presentBranch maxsub tp r s else absentBranch maxsub tp r s)"
  by (auto simp: findMatch_cond_def presentBranch_def absentBranch_def Let_def or_c_def and_c_def
        const_c_def split: sum.splits prod.splits)

lemma presentBranch_eval:
  assumes l: "Target_valid (left tp)" and r: "Target_valid (right tp)"
  shows "presentBranch maxsub tp readString (li0, ls0, ri0, rs0) =
     Inr (case leftmost maxsub (left tp) readString
                 (if want (right tp) then minseqlen (right tp) else maxseqlen (right tp)) of
            None \<Rightarrow> (False, (- 1, ls0, ri0, rs0))
          | Some (li, ls) \<Rightarrow>
              (case rightmost maxsub (right tp) readString (ls + seqlen (left tp) ! nat li) of
                 None \<Rightarrow> (\<not> want (right tp), (li, ls, - 1, rs0))
               | Some (ri, rs) \<Rightarrow> (want (right tp), (li, ls, ri, rs))))"
proof -
  let ?pad = "if want (right tp) then minseqlen (right tp) else maxseqlen (right tp)"
  have shl: "Target_shape (left tp)" and shr: "Target_shape (right tp)"
    using l r by (simp_all add: Target_valid_def)
  have pad: "0 \<le> ?pad" using Target_valid_minmax[OF r] by simp
  have c1: "call_findLeftmost maxsub (left tp) readString (int (length readString)) (\<lambda>s. ?pad) (li0, ls0, ri0, rs0) =
     (case leftmost maxsub (left tp) readString ?pad of
        None \<Rightarrow> Inr (False, (- 1, ls0, ri0, rs0))
      | Some (li, ls) \<Rightarrow> Inr (True, (li, ls, ri0, rs0)))"
    unfolding call_findLeftmost_def prod.case findLeftmost_leftmost[OF shl pad]
    by (simp split: option.splits)
  show ?thesis
  proof (cases rule: leftmost_cases[where maxsub=maxsub and r=readString, OF shl pad, case_names notfound found])
    case notfound
    then show ?thesis using c1 by (simp add: presentBranch_def and_c_def)
  next
    case (found li ls)
    have b: "0 \<le> ls + seqlen (left tp) ! nat li"
      using occ_bounds[OF l found(2)] by simp
    have c2: "call_findRightmost maxsub (right tp) readString (int (length readString))
             (\<lambda>(leftIndex, leftStart, rightIndex, rightStart).
                leftStart + seqlen (left tp) ! nat leftIndex) (li, ls, ri0, rs0) =
       (case rightmost maxsub (right tp) readString (ls + seqlen (left tp) ! nat li) of
          None \<Rightarrow> Inr (False, (li, ls, - 1, rs0))
        | Some (ri, rs) \<Rightarrow> Inr (True, (li, ls, ri, rs)))"
      unfolding call_findRightmost_def prod.case findRightmost_rightmost[OF shr b]
      by (simp split: option.splits)
    show ?thesis using c1 c2 found(1)
      by (auto simp add: presentBranch_def and_c_def eq_c_def split: option.splits)
  qed
qed

lemma absentBranch_eval:
  assumes l: "Target_valid (left tp)" and r: "Target_valid (right tp)"
  shows "absentBranch maxsub tp readString (li0, ls0, ri0, rs0) =
     Inr (case rightmost maxsub (right tp) readString (maxseqlen (left tp)) of
            None \<Rightarrow> (False, (li0, ls0, - 1, rs0))
          | Some (ri, rs) \<Rightarrow>
              (case leftmost maxsub (left tp) readString (int (length readString) - rs) of
                 None \<Rightarrow> (True, (- 1, ls0, ri, rs))
               | Some (li, ls) \<Rightarrow> (False, (li, ls, ri, rs))))"
proof -
  let ?pad = "maxseqlen (left tp)"
  have shl: "Target_shape (left tp)" and shr: "Target_shape (right tp)"
    using l r by (simp_all add: Target_valid_def)
  have pad: "0 \<le> ?pad" using Target_valid_minmax[OF l] by simp
  have c1: "call_findRightmost maxsub (right tp) readString (int (length readString)) (\<lambda>s. ?pad) (li0, ls0, ri0, rs0) =
     (case rightmost maxsub (right tp) readString ?pad of
        None \<Rightarrow> Inr (False, (li0, ls0, - 1, rs0))
      | Some (ri, rs) \<Rightarrow> Inr (True, (li0, ls0, ri, rs)))"
    unfolding call_findRightmost_def prod.case findRightmost_rightmost[OF shr pad]
    by (simp split: option.splits)
  show ?thesis
  proof (cases rule: rightmost_cases[where maxsub=maxsub and r=readString, OF shr pad, case_names notfound found])
    case notfound
    then show ?thesis using c1 by (simp add: absentBranch_def and_c_def)
  next
    case (found ri rs)
    have b: "0 \<le> int (length readString) - rs"
      using occ_bounds[OF r found(2)] by simp
    have c2: "call_findLeftmost maxsub (left tp) readString (int (length readString))
             (\<lambda>(leftIndex, leftStart, rightIndex, rightStart).
                int (length readString) - rightStart) (li0, ls0, ri, rs) =
       (case leftmost maxsub (left tp) readString (int (length readString) - rs) of
          None \<Rightarrow> Inr (False, (- 1, ls0, ri, rs))
        | Some (li, ls) \<Rightarrow> Inr (True, (li, ls, ri, rs)))"
      unfolding call_findLeftmost_def prod.case findLeftmost_leftmost[OF shl b]
      by (simp split: option.splits)
    show ?thesis using c1 c2 found(1)
      by (auto simp add: absentBranch_def and_c_def not_c_def split: option.splits)
  qed
qed

lemma findMatch_cond_confirmed:
  assumes l: "Target_valid (left tp)" and r: "Target_valid (right tp)"
  shows "\<exists>s. findMatch_cond maxsub tp readString s0 = Inr (pairConfirmed maxsub tp readString, s)"
proof -
  obtain li0 ls0 ri0 rs0 where s0: "s0 = (li0, ls0, ri0, rs0)" by (cases s0) auto
  show ?thesis
    unfolding findMatch_cond_branch s0 presentBranch_eval[OF l r] absentBranch_eval[OF l r]
      pairConfirmed_def
    by (auto split: option.splits)
qed

subsection \<open>The text written by writeMatch\<close>

lemma bindE_Inr [simp]: "bindE (Inr x) f = f x"
  by (simp add: bindE_def)

lemma bindE_Inl [simp]: "bindE (Inl e) f = Inl e"
  by (simp add: bindE_def)

lemma substr_window:
  assumes "0 \<le> pos" "0 \<le> n" "pos + n \<le> int (length s)"
  shows "substr s pos n = Inr (window s pos (pos + n))"
proof -
  have "take (nat n) (drop (nat pos) s) = drop (nat pos) (take (nat (pos + n)) s)"
    using assms by (simp add: take_drop nat_add_distrib add.commute)
  then show ?thesis using assms by (simp add: substr_def window_def)
qed

lemma substr_opt:
  assumes "0 \<le> pos" "0 \<le> n" "pos + n \<le> int (length s)"
  shows "(if n > 0 then bindE (substr s pos n) (\<lambda>x. Inr (out @ x)) else Inr out) =
         Inr (out @ window s pos (pos + n))"
proof (cases "n > 0")
  case True
  then show ?thesis using substr_window[OF assms] by simp
next
  case False
  then have "n = 0" using assms by simp
  then show ?thesis by (simp add: window_end)
qed

lemma highlight_loop_markDiff:
  assumes "0 \<le> off" "off + int (length rs) \<le> int (length tb)"
  shows "highlight_loop rs (tb, off) = Inr (markDiff tolower rs (drop (nat off) tb))"
  using assms
proof (induction rs arbitrary: off)
  case Nil
  then show ?case by (simp add: markDiff_def)
next
  case (Cons c cs)
  have lt: "nat off < length tb" using Cons(2,3) by simp
  have r: "rd (tb, off) 0 = Inr (tb ! nat off)" using Cons(2,3) by (simp add: rd_def)
  have d: "drop (nat off) tb = tb ! nat off # drop (nat (off + 1)) tb"
    using Cons_nth_drop_Suc[OF lt] Cons(2) by (simp add: nat_add_distrib)
  have ih: "highlight_loop cs (tb, off + 1) = Inr (markDiff tolower cs (drop (nat (off + 1)) tb))"
    using Cons(1)[of "off + 1"] Cons(2,3) by simp
  show ?case using r ih by (simp add: d markDiff_def)
qed

lemma highlight_bracketed:
  assumes "0 \<le> start" "start + int (length target) \<le> int (length r)"
  shows "bindE (substr r start (int (length target))) (\<lambda>sub. highlight sub (target, 0)) =
         Inr (bracketed tolower r start target)"
proof -
  have s: "substr r start (int (length target)) = Inr (window r start (start + int (length target)))"
    using substr_window[of start "int (length target)" r] assms by simp
  have len: "length (window r start (start + int (length target))) = length target"
    using assms by (simp add: window_def)
  have "highlight_loop (window r start (start + int (length target))) (target, 0) =
        Inr (markDiff tolower (window r start (start + int (length target))) target)"
    using highlight_loop_markDiff[of 0 "window r start (start + int (length target))" target] len
    by simp
  then show ?thesis using s by (simp add: highlight_def bracketed_def)
qed

lemma highlight_window:
  assumes "0 \<le> start" "start + int (length target) \<le> int (length r)"
  shows "highlight (window r start (start + int (length target))) (target, 0) =
         Inr (bracketed tolower r start target)"
  using highlight_bracketed[OF assms] substr_window[of start "int (length target)" r] assms
  by simp

lemma substr_tail:
  assumes "0 \<le> pos" "0 \<le> n" "pos + n \<le> int (length s)"
  shows "(if n > 0 then bindE (substr s pos n) (\<lambda>x. Inr (out @ h @ x)) else Inr (out @ h)) =
         Inr (out @ h @ window s pos (pos + n))"
proof (cases "n > 0")
  case True
  then show ?thesis using substr_window[OF assms] by simp
next
  case False
  then have "n = 0" using assms by simp
  then show ?thesis by (simp add: window_end)
qed

lemma writeMatch_side:
  assumes "0 \<le> start" "len = int (length target)" "start + len \<le> e" "e \<le> int (length r)"
  shows "bindE (substr r start len) (\<lambda>sub.
         bindE (highlight sub (target, 0)) (\<lambda>h.
           let nextlen = e - start - len
           in if nextlen > 0
              then bindE (substr r (start + len) nextlen) (\<lambda>s. Inr (out @ h @ s))
              else Inr (out @ h))) =
         Inr (out @ bracketed tolower r start target @ window r (start + len) e)"
proof -
  have s: "substr r start len = Inr (window r start (start + len))"
    using substr_window[of start len r] assms by simp
  have h: "highlight (window r start (start + len)) (target, 0) =
           Inr (bracketed tolower r start target)"
    using highlight_window[of start target r] assms by simp
  have t: "(if e - start - len > 0
            then bindE (substr r (start + len) (e - start - len))
                   (\<lambda>s. Inr (out @ bracketed tolower r start target @ s))
            else Inr (out @ bracketed tolower r start target)) =
           Inr (out @ bracketed tolower r start target @ window r (start + len) e)"
    using substr_tail[of "start + len" "e - start - len" r out "bracketed tolower r start target"]
      assms by simp
  show ?thesis unfolding s bindE_Inr h Let_def using t by simp
qed

lemma writeMatch_both:
  assumes w: "want (left tp)" "want (right tp)"
    and l: "0 \<le> ls" "seqlen (left tp) ! nat li = int (length (seq (left tp) ! nat li))"
      "ls + seqlen (left tp) ! nat li \<le> rs"
    and r: "seqlen (right tp) ! nat ri = int (length (seq (right tp) ! nat ri))"
      "rs + seqlen (right tp) ! nat ri \<le> int (length readString)"
  shows "writeMatch tp name readString li ls ri rs =
     Inr (name @ [CHR 0x09] @
          (window readString 0 ls @ bracketed tolower readString ls (seq (left tp) ! nat li) @
           window readString (ls + int (length (seq (left tp) ! nat li))) rs @
           bracketed tolower readString rs (seq (right tp) ! nat ri) @
           window readString (rs + int (length (seq (right tp) ! nat ri))) (int (length readString))) @
          [CHR 0x09] @ label tp @ [CHR 0x0A])"
proof -
  have ll0: "0 \<le> seqlen (left tp) ! nat li" using l(2) by simp
  have rl0: "0 \<le> seqlen (right tp) ! nat ri" using r(1) by simp
  have p1: "\<And>out. (if ls > 0 then bindE (substr readString 0 ls) (\<lambda>s. Inr (out @ s)) else Inr out) =
            Inr (out @ window readString 0 ls)"
    using substr_opt[of 0 ls readString] l r ll0 rl0 by simp
  have p2: "\<And>out. bindE (substr readString ls (seqlen (left tp) ! nat li)) (\<lambda>sub.
         bindE (highlight sub (seq (left tp) ! nat li, 0)) (\<lambda>h.
           if rs - ls - seqlen (left tp) ! nat li > 0
              then bindE (substr readString (ls + seqlen (left tp) ! nat li)
                            (rs - ls - seqlen (left tp) ! nat li)) (\<lambda>s. Inr (out @ h @ s))
              else Inr (out @ h))) =
         Inr (out @ bracketed tolower readString ls (seq (left tp) ! nat li) @
              window readString (ls + seqlen (left tp) ! nat li) rs)"
    by (rule writeMatch_side[unfolded Let_def]) (use l r rl0 in simp_all)
  have p3: "\<And>out. bindE (substr readString rs (seqlen (right tp) ! nat ri)) (\<lambda>sub.
         bindE (highlight sub (seq (right tp) ! nat ri, 0)) (\<lambda>h.
           if int (length readString) - rs - seqlen (right tp) ! nat ri > 0
              then bindE (substr readString (rs + seqlen (right tp) ! nat ri)
                            (int (length readString) - rs - seqlen (right tp) ! nat ri))
                     (\<lambda>s. Inr (out @ h @ s))
              else Inr (out @ h))) =
         Inr (out @ bracketed tolower readString rs (seq (right tp) ! nat ri) @
              window readString (rs + seqlen (right tp) ! nat ri) (int (length readString)))"
    by (rule writeMatch_side[unfolded Let_def]) (use l r ll0 in simp_all)
  show ?thesis
    unfolding writeMatch_def Let_def using w
    by (simp only: if_True p1 p2 p3 bindE_Inr l(2)[symmetric] r(1)[symmetric]) simp
qed

lemma writeMatch_left_only:
  assumes w: "want (left tp)" "\<not> want (right tp)"
    and l: "0 \<le> ls" "seqlen (left tp) ! nat li = int (length (seq (left tp) ! nat li))"
      "ls + seqlen (left tp) ! nat li \<le> int (length readString)"
  shows "writeMatch tp name readString li ls ri rs =
     Inr (name @ [CHR 0x09] @
          (window readString 0 ls @ bracketed tolower readString ls (seq (left tp) ! nat li) @
           window readString (ls + int (length (seq (left tp) ! nat li))) (int (length readString))) @
          [CHR 0x09] @ label tp @ [CHR 0x0A])"
proof -
  have ll0: "0 \<le> seqlen (left tp) ! nat li" using l(2) by simp
  have p1: "\<And>out. (if ls > 0 then bindE (substr readString 0 ls) (\<lambda>s. Inr (out @ s)) else Inr out) =
            Inr (out @ window readString 0 ls)"
    using substr_opt[of 0 ls readString] l ll0 by simp
  have p2: "\<And>out. bindE (substr readString ls (seqlen (left tp) ! nat li)) (\<lambda>sub.
         bindE (highlight sub (seq (left tp) ! nat li, 0)) (\<lambda>h.
           if int (length readString) - ls - seqlen (left tp) ! nat li > 0
              then bindE (substr readString (ls + seqlen (left tp) ! nat li)
                            (int (length readString) - ls - seqlen (left tp) ! nat li))
                     (\<lambda>s. Inr (out @ h @ s))
              else Inr (out @ h))) =
         Inr (out @ bracketed tolower readString ls (seq (left tp) ! nat li) @
              window readString (ls + seqlen (left tp) ! nat li) (int (length readString)))"
    by (rule writeMatch_side[unfolded Let_def]) (use l in simp_all)
  show ?thesis
    unfolding writeMatch_def Let_def using w
    by (simp only: if_True if_False p1 p2 bindE_Inr l(2)[symmetric]) simp
qed

lemma writeMatch_right_only:
  assumes w: "\<not> want (left tp)" "want (right tp)"
    and r: "0 \<le> rs" "seqlen (right tp) ! nat ri = int (length (seq (right tp) ! nat ri))"
      "rs + seqlen (right tp) ! nat ri \<le> int (length readString)"
  shows "writeMatch tp name readString li ls ri rs =
     Inr (name @ [CHR 0x09] @
          (window readString 0 rs @ bracketed tolower readString rs (seq (right tp) ! nat ri) @
           window readString (rs + int (length (seq (right tp) ! nat ri))) (int (length readString))) @
          [CHR 0x09] @ label tp @ [CHR 0x0A])"
proof -
  have rl0: "0 \<le> seqlen (right tp) ! nat ri" using r(2) by simp
  have p1: "\<And>out. (if rs > 0 then bindE (substr readString 0 rs) (\<lambda>s. Inr (out @ s)) else Inr out) =
            Inr (out @ window readString 0 rs)"
    using substr_opt[of 0 rs readString] r rl0 by simp
  have p3: "\<And>out. bindE (substr readString rs (seqlen (right tp) ! nat ri)) (\<lambda>sub.
         bindE (highlight sub (seq (right tp) ! nat ri, 0)) (\<lambda>h.
           if int (length readString) - rs - seqlen (right tp) ! nat ri > 0
              then bindE (substr readString (rs + seqlen (right tp) ! nat ri)
                            (int (length readString) - rs - seqlen (right tp) ! nat ri))
                     (\<lambda>s. Inr (out @ h @ s))
              else Inr (out @ h))) =
         Inr (out @ bracketed tolower readString rs (seq (right tp) ! nat ri) @
              window readString (rs + seqlen (right tp) ! nat ri) (int (length readString)))"
    by (rule writeMatch_side[unfolded Let_def]) (use r in simp_all)
  show ?thesis
    unfolding writeMatch_def Let_def using w
    by (simp only: if_True if_False p1 p3 bindE_Inr r(2)[symmetric]) simp
qed

lemma findMatch_eval:
  assumes l: "Target_valid (left tp)" and r: "Target_valid (right tp)"
    and w: "want (left tp) \<or> want (right tp)"
  shows "findMatch maxsub tp name readString s0 =
     Inr (if pairConfirmed maxsub tp readString
          then name @ [CHR 0x09] @ annotated tolower maxsub tp readString @ [CHR 0x09] @ label tp @
               [CHR 0x0A]
          else [])"
proof -
  obtain li0 ls0 ri0 rs0 where s0: "s0 = (li0, ls0, ri0, rs0)" by (cases s0) auto
  have shl: "Target_shape (left tp)" and shr: "Target_shape (right tp)"
    using l r by (simp_all add: Target_valid_def)
  show ?thesis
  proof (cases "want (left tp)")
    case wl: True
    let ?pad = "if want (right tp) then minseqlen (right tp) else maxseqlen (right tp)"
    have pad: "0 \<le> ?pad" using Target_valid_minmax[OF r] by simp
    show ?thesis
    proof (cases rule: leftmost_cases[where maxsub=maxsub and r=readString, OF shl pad,
            case_names notfound found])
      case notfound
      then show ?thesis
        unfolding findMatch_def findMatch_cond_branch s0 presentBranch_eval[OF l r]
        using wl by (simp add: pairConfirmed_def)
    next
      case (found li ls)
      note ob = occ_bounds[OF l found(2)]
      have b: "0 \<le> ls + seqlen (left tp) ! nat li" using ob by simp
      show ?thesis
      proof (cases rule: rightmost_cases[where maxsub=maxsub and r=readString, OF shr b,
              case_names notfound found])
        case notfound
        show ?thesis
        proof (cases "want (right tp)")
          case True
          then show ?thesis
            unfolding findMatch_def findMatch_cond_branch s0 presentBranch_eval[OF l r]
            using wl found(1) notfound(1) by (simp add: pairConfirmed_def)
        next
          case False
          have wm: "writeMatch tp name readString li ls (- 1) rs0 =
             Inr (name @ [CHR 0x09] @
               (window readString 0 ls @ bracketed tolower readString ls (seq (left tp) ! nat li) @
                window readString (ls + int (length (seq (left tp) ! nat li))) (int (length readString))) @
               [CHR 0x09] @ label tp @ [CHR 0x0A])"
            by (rule writeMatch_left_only[OF wl False ob(3) ob(6) ob(4)])
          have pc: "pairConfirmed maxsub tp readString"
            using wl False found(1) notfound(1) ob(6) by (simp add: pairConfirmed_def)
          have an: "annotated tolower maxsub tp readString =
                window readString 0 ls @ bracketed tolower readString ls (seq (left tp) ! nat li) @
                window readString (ls + int (length (seq (left tp) ! nat li))) (int (length readString))"
            using wl False found(1) by (simp add: annotated_def Let_def)
          show ?thesis
            unfolding findMatch_def findMatch_cond_branch s0 presentBranch_eval[OF l r]
            using wl False found(1) notfound(1) wm pc an by simp
        qed
      next
        case fr: (found ri rs)
        note obr = occ_bounds[OF r fr(2)]
        show ?thesis
        proof (cases "want (right tp)")
          case False
          then show ?thesis
            unfolding findMatch_def findMatch_cond_branch s0 presentBranch_eval[OF l r]
            using wl found(1) fr(1) ob(6) by (simp add: pairConfirmed_def)
        next
          case True
          have wm: "writeMatch tp name readString li ls ri rs =
             Inr (name @ [CHR 0x09] @
               (window readString 0 ls @ bracketed tolower readString ls (seq (left tp) ! nat li) @
                window readString (ls + int (length (seq (left tp) ! nat li))) rs @
                bracketed tolower readString rs (seq (right tp) ! nat ri) @
                window readString (rs + int (length (seq (right tp) ! nat ri))) (int (length readString))) @
               [CHR 0x09] @ label tp @ [CHR 0x0A])"
            by (rule writeMatch_both[OF wl True ob(3) ob(6) fr(3) obr(6) obr(4)])
          have pc: "pairConfirmed maxsub tp readString"
            using wl True found(1) fr(1) ob(6) by (simp add: pairConfirmed_def)
          have an: "annotated tolower maxsub tp readString =
                window readString 0 ls @ bracketed tolower readString ls (seq (left tp) ! nat li) @
                window readString (ls + int (length (seq (left tp) ! nat li))) rs @
                bracketed tolower readString rs (seq (right tp) ! nat ri) @
                window readString (rs + int (length (seq (right tp) ! nat ri))) (int (length readString))"
            using wl True found(1) fr(1) ob(6) by (simp add: annotated_def Let_def)
          show ?thesis
            unfolding findMatch_def findMatch_cond_branch s0 presentBranch_eval[OF l r]
            using wl True found(1) fr(1) wm pc an by simp
        qed
      qed
    qed
  next
    case nl: False
    then have wr: "want (right tp)" using w by simp
    have pad: "0 \<le> maxseqlen (left tp)" using Target_valid_minmax[OF l] by simp
    show ?thesis
    proof (cases rule: rightmost_cases[where maxsub=maxsub and r=readString, OF shr pad,
            case_names notfound found])
      case notfound
      then show ?thesis
        unfolding findMatch_def findMatch_cond_branch s0 absentBranch_eval[OF l r]
        using nl by (simp add: pairConfirmed_def)
    next
      case (found ri rs)
      note obr = occ_bounds[OF r found(2)]
      show ?thesis
      proof (cases "leftmost maxsub (left tp) readString (int (length readString) - rs)")
        case (Some a)
        then show ?thesis
          unfolding findMatch_def findMatch_cond_branch s0 absentBranch_eval[OF l r]
          using nl found(1) by (simp add: pairConfirmed_def split: prod.splits)
      next
        case None
        have wm: "writeMatch tp name readString (- 1) ls0 ri rs =
             Inr (name @ [CHR 0x09] @
               (window readString 0 rs @ bracketed tolower readString rs (seq (right tp) ! nat ri) @
                window readString (rs + int (length (seq (right tp) ! nat ri))) (int (length readString))) @
               [CHR 0x09] @ label tp @ [CHR 0x0A])"
          by (rule writeMatch_right_only[OF nl wr obr(3) obr(6) obr(4)])
        have pc: "pairConfirmed maxsub tp readString"
          using nl found(1) None by (simp add: pairConfirmed_def)
        have an: "annotated tolower maxsub tp readString =
                window readString 0 rs @ bracketed tolower readString rs (seq (right tp) ! nat ri) @
                window readString (rs + int (length (seq (right tp) ! nat ri))) (int (length readString))"
          using nl found(1) by (simp add: annotated_def Let_def)
        show ?thesis
          unfolding findMatch_def findMatch_cond_branch s0 absentBranch_eval[OF l r]
          using nl found(1) None wm pc an by simp
      qed
    qed
  qed
qed

subsection \<open>Degenerate windows and the absence of errors\<close>

lemma TargetPair_ctor_valid:
  assumes "TargetPair_ctor inLabel l r = Inr tp"
  shows "Target_valid (left tp)" "Target_valid (right tp)"
  using TargetPair_ctor_Inr(1,2)[OF assms] Target_ctor_valid(1) by blast+

lemma findLeftmost_loop_degenerate:
  assumes "\<And>j. i \<le> j \<Longrightarrow> j < seqcount t \<Longrightarrow> lme < seqlen t ! nat j"
  shows "findLeftmost_loop maxsub t r i (mi, ms, lme) = Inr (mi, ms, lme)"
  using assms
proof (induction "nat (seqcount t - i)" arbitrary: i)
  case 0
  then show ?case by (subst findLeftmost_loop.simps) simp
next
  case (Suc n)
  have lt: "i < seqcount t" using Suc(2) by simp
  have n: "n = nat (seqcount t - (i + 1))" using Suc(2) by simp
  have "lme < seqlen t ! nat i" using Suc(3)[of i] lt by simp
  then have sc: "findLeftmost_scan maxsub r (seq t ! nat i) (seqlen t ! nat i) 0
                   (lme - seqlen t ! nat i) = Inr None"
    by (subst findLeftmost_scan.simps) simp
  have "findLeftmost_loop maxsub t r i (mi, ms, lme) =
        findLeftmost_loop maxsub t r (i + 1) (mi, ms, lme)"
    using lt sc by (subst findLeftmost_loop.simps) (simp add: findLeftmost_step_def)
  also have "\<dots> = Inr (mi, ms, lme)"
    by (rule Suc(1)[OF n]) (use Suc(3) in simp)
  finally show ?case .
qed

lemma findRightmost_loop_degenerate:
  assumes "\<And>j. i \<le> j \<Longrightarrow> j < seqcount t \<Longrightarrow> readseqlen - seqlen t ! nat j < lms"
  shows "findRightmost_loop maxsub t r readseqlen i (mi, ms, lms) = Inr (mi, ms, lms)"
  using assms
proof (induction "nat (seqcount t - i)" arbitrary: i)
  case 0
  then show ?case by (subst findRightmost_loop.simps) simp
next
  case (Suc n)
  have lt: "i < seqcount t" using Suc(2) by simp
  have n: "n = nat (seqcount t - (i + 1))" using Suc(2) by simp
  have "readseqlen - seqlen t ! nat i < lms" using Suc(3)[of i] lt by simp
  then have sc: "findRightmost_scan maxsub r (seq t ! nat i) (seqlen t ! nat i)
                   (readseqlen - seqlen t ! nat i) lms = Inr None"
    by (subst findRightmost_scan.simps) simp
  have "findRightmost_loop maxsub t r readseqlen i (mi, ms, lms) =
        findRightmost_loop maxsub t r readseqlen (i + 1) (mi, ms, lms)"
    using lt sc by (subst findRightmost_loop.simps) (simp add: findRightmost_step_def)
  also have "\<dots> = Inr (mi, ms, lms)"
    by (rule Suc(1)[OF n]) (use Suc(3) in simp)
  finally show ?case .
qed

lemma searches_degenerate:
  assumes "\<And>i. 0 \<le> i \<Longrightarrow> i < seqcount t \<Longrightarrow> readseqlen - pad < seqlen t ! nat i"
  shows "findLeftmost maxsub t r readseqlen pad ms0 = Inr (False, - 1, ms0)"
    "findRightmost maxsub t r readseqlen pad ms0 = Inr (False, - 1, ms0)"
proof -
  have "findLeftmost_loop maxsub t r 0 (- 1, ms0, readseqlen - pad) =
        Inr (- 1, ms0, readseqlen - pad)"
    by (rule findLeftmost_loop_degenerate) (use assms in simp)
  then show "findLeftmost maxsub t r readseqlen pad ms0 = Inr (False, - 1, ms0)"
    by (simp add: findLeftmost_def)
  have "findRightmost_loop maxsub t r readseqlen 0 (- 1, ms0, pad) = Inr (- 1, ms0, pad)"
  proof (rule findRightmost_loop_degenerate)
    fix j assume "0 \<le> j" "j < seqcount t"
    then show "readseqlen - seqlen t ! nat j < pad" using assms[of j] by simp
  qed
  then show "findRightmost maxsub t r readseqlen pad ms0 = Inr (False, - 1, ms0)"
    by (simp add: findRightmost_def)
qed

lemma Target_valid_seqlen:
  assumes "Target_valid t" "0 \<le> i" "i < seqcount t"
  shows "minseqlen t \<le> seqlen t ! nat i" "seqlen t ! nat i \<le> maxseqlen t"
proof -
  have "nat i < length (seqlen t)" using assms by (simp add: Target_valid_def Target_shape_def)
  then have "seqlen t ! nat i \<in> set (seqlen t)" by simp
  then show "minseqlen t \<le> seqlen t ! nat i" "seqlen t ! nat i \<le> maxseqlen t"
    using assms(1) by (simp_all add: Target_valid_def)
qed

text \<open>
  Claim C4. A search whose window is shorter than every target sequence of the set (the
  read length less the reserve is below each length) returns "not found", with no error,
  whatever the buffer, the read length and the reserve are; in particular on a read
  shorter than the shortest target sequence. And \<^verbatim>\<open>findMatch\<close> on any read, for any pair
  that the constructor accepted, ends without an error: neither a read outside a buffer
  nor an exception of \<^verbatim>\<open>substr\<close>.
\<close>

theorem degenerate_window_not_found:
  assumes "TargetPair_ctor inLabel leftTargetString rightTargetString = Inr tp"
    and "t = left tp \<or> t = right tp"
  shows "((\<forall>i. 0 \<le> i \<and> i < seqcount t \<longrightarrow> readseqlen - pad < seqlen t ! nat i) \<longrightarrow>
            findLeftmost maxsub t readseq readseqlen pad ms0 = Inr (False, - 1, ms0) \<and>
            findRightmost maxsub t readseq readseqlen pad ms0 = Inr (False, - 1, ms0)) \<and>
         (int (length readString) < minseqlen t \<and> 0 \<le> pad \<longrightarrow>
            findLeftmost maxsub t readString (int (length readString)) pad ms0 =
              Inr (False, - 1, ms0) \<and>
            findRightmost maxsub t readString (int (length readString)) pad ms0 =
              Inr (False, - 1, ms0)) \<and>
         (\<exists>out. findMatch maxsub tp readName readString locals0 = Inr out)"
proof (intro conjI impI)
  assume "\<forall>i. 0 \<le> i \<and> i < seqcount t \<longrightarrow> readseqlen - pad < seqlen t ! nat i"
  then have h: "\<And>i. 0 \<le> i \<Longrightarrow> i < seqcount t \<Longrightarrow> readseqlen - pad < seqlen t ! nat i"
    by blast
  show "findLeftmost maxsub t readseq readseqlen pad ms0 = Inr (False, - 1, ms0)"
    by (rule searches_degenerate(1)[OF h])
  show "findRightmost maxsub t readseq readseqlen pad ms0 = Inr (False, - 1, ms0)"
    by (rule searches_degenerate(2)[OF h])
next
  have v: "Target_valid t" using TargetPair_ctor_valid[OF assms(1)] assms(2) by blast
  assume a: "int (length readString) < minseqlen t \<and> 0 \<le> pad"
  have h: "\<And>i. 0 \<le> i \<Longrightarrow> i < seqcount t \<Longrightarrow>
             int (length readString) - pad < seqlen t ! nat i"
    using Target_valid_seqlen(1)[OF v] a by fastforce
  show "findLeftmost maxsub t readString (int (length readString)) pad ms0 = Inr (False, - 1, ms0)"
    by (rule searches_degenerate(1)[OF h])
  show "findRightmost maxsub t readString (int (length readString)) pad ms0 = Inr (False, - 1, ms0)"
    by (rule searches_degenerate(2)[OF h])
next
  show "\<exists>out. findMatch maxsub tp readName readString locals0 = Inr out"
    using findMatch_eval[OF TargetPair_ctor_valid[OF assms(1)] TargetPair_ctor_Inr(5)[OF assms(1)]]
    by blast
qed

theorem degenerate_window_not_found_witness:
  "TargetPair_ctor ''FUS'' ''AAAACCCC'' ''GGGGTTTT|GGGGTTTTAA'' =
     Inr \<lparr>label = ''FUS'',
          left = \<lparr>want = True, minseqlen = 8, maxseqlen = 8, seqcount = 1, seqlen = [8],
                   seq = [''AAAACCCC'']\<rparr>,
          right = \<lparr>want = True, minseqlen = 8, maxseqlen = 10, seqcount = 2, seqlen = [8, 10],
                    seq = [''GGGGTTTT'', ''GGGGTTTTAA'']\<rparr>\<rparr> \<and>
   findLeftmost 2 \<lparr>want = True, minseqlen = 8, maxseqlen = 10, seqcount = 2, seqlen = [8, 10],
                    seq = [''GGGGTTTT'', ''GGGGTTTTAA'']\<rparr> ''GGGGTTT'' 7 0 5 = Inr (False, - 1, 5) \<and>
   findRightmost 2 \<lparr>want = True, minseqlen = 8, maxseqlen = 10, seqcount = 2, seqlen = [8, 10],
                    seq = [''GGGGTTTT'', ''GGGGTTTTAA'']\<rparr> ''GGGGTTT'' 7 0 5 = Inr (False, - 1, 5) \<and>
   findMatch 2 \<lparr>label = ''FUS'',
          left = \<lparr>want = True, minseqlen = 8, maxseqlen = 8, seqcount = 1, seqlen = [8],
                   seq = [''AAAACCCC'']\<rparr>,
          right = \<lparr>want = True, minseqlen = 8, maxseqlen = 10, seqcount = 2, seqlen = [8, 10],
                    seq = [''GGGGTTTT'', ''GGGGTTTTAA'']\<rparr>\<rparr> ''r1'' ''GGGGTTT'' (0, 0, 0, 0) = Inr []"
proof -
  let ?r = "\<lparr>want = True, minseqlen = 8, maxseqlen = 10, seqcount = 2, seqlen = [8, 10],
                    seq = [''GGGGTTTT'', ''GGGGTTTTAA'']\<rparr>"
  let ?tp = "\<lparr>label = ''FUS'',
          left = \<lparr>want = True, minseqlen = 8, maxseqlen = 8, seqcount = 1, seqlen = [8],
                   seq = [''AAAACCCC'']\<rparr>, right = ?r\<rparr>"
  have c: "TargetPair_ctor ''FUS'' ''AAAACCCC'' ''GGGGTTTT|GGGGTTTTAA'' = Inr ?tp"
    by code_simp
  have t: "?r = left ?tp \<or> ?r = right ?tp" by simp
  have short: "int (length ''GGGGTTT'') < minseqlen ?r \<and> (0::int) \<le> 0" by simp
  have fm: "findMatch 2 ?tp ''r1'' ''GGGGTTT'' (0, 0, 0, 0) = Inr []" by code_simp
  from degenerate_window_not_found[OF c t, THEN conjunct2, THEN conjunct1, rule_format, OF short,
      of 2 5]
  have "findLeftmost 2 ?r ''GGGGTTT'' 7 0 5 = Inr (False, - 1, 5) \<and>
        findRightmost 2 ?r ''GGGGTTT'' 7 0 5 = Inr (False, - 1, 5)"
    by simp
  then show ?thesis using c fm by simp
qed

subsection \<open>The searches stay inside the read\<close>

lemma leftmost_Some_bounds:
  assumes "Target_valid t" "0 \<le> pad" "leftmost maxsub t r pad = Some (mi, ms)"
  shows "occ maxsub t r mi ms" "ms + seqlen t ! nat mi \<le> int (length r) - pad"
proof -
  have sh: "Target_shape t" using assms(1) by (simp add: Target_valid_def)
  show "occ maxsub t r mi ms" "ms + seqlen t ! nat mi \<le> int (length r) - pad"
    by (cases rule: leftmost_cases[where maxsub=maxsub and r=r, OF sh assms(2),
          case_names notfound found]; use assms(3) in simp)+
qed

lemma rightmost_Some_bounds:
  assumes "Target_valid t" "0 \<le> pad" "rightmost maxsub t r pad = Some (mi, ms)"
  shows "occ maxsub t r mi ms" "pad \<le> ms"
proof -
  have sh: "Target_shape t" using assms(1) by (simp add: Target_valid_def)
  show "occ maxsub t r mi ms" "pad \<le> ms"
    by (cases rule: rightmost_cases[where maxsub=maxsub and r=r, OF sh assms(2),
          case_names notfound found]; use assms(3) in simp)+
qed

text \<open>
  Claim C10. For a pair that the constructor accepted, a read buffer of length
  \<open>readseqlen\<close> and a reserve that is not negative, \<^verbatim>\<open>findLeftmost\<close> and
  \<^verbatim>\<open>findRightmost\<close> end without the error \<open>OutOfBounds\<close>, which any read of the
  buffer at an index outside \<open>[0, readseqlen)\<close> would raise, and a match they report
  has \<open>0 \<le> matchStart\<close> and \<open>matchStart + seqlen[matchIndex] \<le> readseqlen\<close>, with
  \<open>matchIndex\<close> an index of the set. The reserves that \<^verbatim>\<open>findMatch\<close> passes are not
  negative, and its whole condition ends without an error.
\<close>

theorem searches_within_read:
  assumes "TargetPair_ctor inLabel leftTargetString rightTargetString = Inr tp"
    and "t = left tp \<or> t = right tp" and "0 \<le> pad"
  shows "(\<exists>found mi ms.
            findLeftmost maxsub t readString (int (length readString)) pad ms0 =
              Inr (found, mi, ms) \<and>
            (found \<longrightarrow> 0 \<le> mi \<and> mi < seqcount t \<and> 0 \<le> ms \<and>
                      ms + seqlen t ! nat mi \<le> int (length readString))) \<and>
         (\<exists>found mi ms.
            findRightmost maxsub t readString (int (length readString)) pad ms0 =
              Inr (found, mi, ms) \<and>
            (found \<longrightarrow> 0 \<le> mi \<and> mi < seqcount t \<and> 0 \<le> ms \<and>
                      ms + seqlen t ! nat mi \<le> int (length readString))) \<and>
         0 \<le> (if want (right tp) then minseqlen (right tp) else maxseqlen (right tp)) \<and>
         (\<forall>li ls. leftmost maxsub (left tp) readString
                     (if want (right tp) then minseqlen (right tp) else maxseqlen (right tp)) =
                     Some (li, ls) \<longrightarrow> 0 \<le> ls + seqlen (left tp) ! nat li) \<and>
         0 \<le> maxseqlen (left tp) \<and>
         (\<forall>ri rs. rightmost maxsub (right tp) readString (maxseqlen (left tp)) = Some (ri, rs) \<longrightarrow>
                   0 \<le> int (length readString) - rs) \<and>
         (\<exists>b s. findMatch_cond maxsub tp readString locals0 = Inr (b, s))"
proof -
  note vl = TargetPair_ctor_valid(1)[OF assms(1)] and vr = TargetPair_ctor_valid(2)[OF assms(1)]
  have v: "Target_valid t" using vl vr assms(2) by blast
  then have sh: "Target_shape t" by (simp add: Target_valid_def)
  let ?p1 = "if want (right tp) then minseqlen (right tp) else maxseqlen (right tp)"
  have p1: "0 \<le> ?p1" using Target_valid_minmax[OF vr] by simp
  have p2: "0 \<le> maxseqlen (left tp)" using Target_valid_minmax[OF vl] by simp
  have L: "\<exists>found mi ms.
            findLeftmost maxsub t readString (int (length readString)) pad ms0 =
              Inr (found, mi, ms) \<and>
            (found \<longrightarrow> 0 \<le> mi \<and> mi < seqcount t \<and> 0 \<le> ms \<and>
                      ms + seqlen t ! nat mi \<le> int (length readString))"
  proof (cases rule: findLeftmost_cases[where maxsub=maxsub and r=readString and ?ms0.0=ms0,
           OF sh assms(3), case_names notfound found])
    case notfound
    then show ?thesis by auto
  next
    case (found mi ms)
    then show ?thesis using occ_bounds[OF v found(2)] by auto
  qed
  have R: "\<exists>found mi ms.
            findRightmost maxsub t readString (int (length readString)) pad ms0 =
              Inr (found, mi, ms) \<and>
            (found \<longrightarrow> 0 \<le> mi \<and> mi < seqcount t \<and> 0 \<le> ms \<and>
                      ms + seqlen t ! nat mi \<le> int (length readString))"
  proof (cases rule: findRightmost_cases[where maxsub=maxsub and r=readString and ?ms0.0=ms0,
           OF sh assms(3), case_names notfound found])
    case notfound
    then show ?thesis by auto
  next
    case (found mi ms)
    then show ?thesis using occ_bounds[OF v found(2)] by auto
  qed
  have A: "\<forall>li ls. leftmost maxsub (left tp) readString ?p1 = Some (li, ls) \<longrightarrow>
                   0 \<le> ls + seqlen (left tp) ! nat li"
  proof (intro allI impI)
    fix li ls assume "leftmost maxsub (left tp) readString ?p1 = Some (li, ls)"
    from occ_bounds[OF vl leftmost_Some_bounds(1)[OF vl p1 this]]
    show "0 \<le> ls + seqlen (left tp) ! nat li" by simp
  qed
  have B: "\<forall>ri rs. rightmost maxsub (right tp) readString (maxseqlen (left tp)) = Some (ri, rs) \<longrightarrow>
                   0 \<le> int (length readString) - rs"
  proof (intro allI impI)
    fix ri rs assume "rightmost maxsub (right tp) readString (maxseqlen (left tp)) = Some (ri, rs)"
    from occ_bounds[OF vr rightmost_Some_bounds(1)[OF vr p2 this]]
    show "0 \<le> int (length readString) - rs" by simp
  qed
  have C: "\<exists>b s. findMatch_cond maxsub tp readString locals0 = Inr (b, s)"
    using findMatch_cond_confirmed[OF vl vr] by blast
  show ?thesis using L R p1 A p2 B C by blast
qed

theorem searches_within_read_witness:
  "TargetPair_ctor ''FUS'' ''AAAACCCC'' ''GGGGTTTT|GGGGTTTTAA'' =
     Inr \<lparr>label = ''FUS'',
          left = \<lparr>want = True, minseqlen = 8, maxseqlen = 8, seqcount = 1, seqlen = [8],
                   seq = [''AAAACCCC'']\<rparr>,
          right = \<lparr>want = True, minseqlen = 8, maxseqlen = 10, seqcount = 2, seqlen = [8, 10],
                    seq = [''GGGGTTTT'', ''GGGGTTTTAA'']\<rparr>\<rparr> \<and>
   findRightmost 1 \<lparr>want = True, minseqlen = 8, maxseqlen = 10, seqcount = 2, seqlen = [8, 10],
                    seq = [''GGGGTTTT'', ''GGGGTTTTAA'']\<rparr> ''AAAACCCCGGGGTTTTAC'' 18 3 0 =
     Inr (True, 0, 8) \<and>
   (0::int) \<le> 8 \<and> (8::int) + [8, 10] ! nat 0 \<le> int (length ''AAAACCCCGGGGTTTTAC'') \<and>
   (\<exists>b s. findMatch_cond 1
      \<lparr>label = ''FUS'',
        left = \<lparr>want = True, minseqlen = 8, maxseqlen = 8, seqcount = 1, seqlen = [8],
                 seq = [''AAAACCCC'']\<rparr>,
        right = \<lparr>want = True, minseqlen = 8, maxseqlen = 10, seqcount = 2, seqlen = [8, 10],
                  seq = [''GGGGTTTT'', ''GGGGTTTTAA'']\<rparr>\<rparr> ''AAAACCCCGGGGTTTTAC'' (0, 0, 0, 0) =
      Inr (b, s))"
proof -
  let ?r = "\<lparr>want = True, minseqlen = 8, maxseqlen = 10, seqcount = 2, seqlen = [8, 10],
                    seq = [''GGGGTTTT'', ''GGGGTTTTAA'']\<rparr>"
  let ?tp = "\<lparr>label = ''FUS'',
          left = \<lparr>want = True, minseqlen = 8, maxseqlen = 8, seqcount = 1, seqlen = [8],
                   seq = [''AAAACCCC'']\<rparr>, right = ?r\<rparr>"
  have c: "TargetPair_ctor ''FUS'' ''AAAACCCC'' ''GGGGTTTT|GGGGTTTTAA'' = Inr ?tp"
    by code_simp
  have t: "?r = left ?tp \<or> ?r = right ?tp" by simp
  have p: "(0::int) \<le> 3" by simp
  have f: "findRightmost 1 ?r ''AAAACCCCGGGGTTTTAC'' 18 3 0 = Inr (True, 0, 8)" by code_simp
  note w = searches_within_read[OF c t p, of 1 "''AAAACCCCGGGGTTTTAC''" 0 "(0, 0, 0, 0)"]
  have b: "(0::int) \<le> 8 \<and> (8::int) + [8, 10] ! nat 0 \<le> int (length ''AAAACCCCGGGGTTTTAC'')"
    using w[THEN conjunct2, THEN conjunct1] f by simp
  have e: "\<exists>b s. findMatch_cond 1 ?tp ''AAAACCCCGGGGTTTTAC'' (0, 0, 0, 0) = Inr (b, s)"
    using w by blast
  show ?thesis using c f b e by blast
qed

subsection \<open>Two occurrences of one target sequence\<close>

lemma occ_numDiff:
  assumes "Target_shape t" "0 \<le> maxsub" "0 \<le> j" "j < seqcount t"
  shows "occ maxsub t r j s \<longleftrightarrow> s \<in> set (occurrences maxsub r (seq t ! nat j))"
proof -
  have len: "seqlen t ! nat j = int (length (seq t ! nat j))"
    using shape_len[OF assms(1,3,4)] .
  have "fuzzyEq maxsub a b \<longleftrightarrow> int (numDiff a b) \<le> maxsub" for a b
    using assms(2) by (auto simp: fuzzyEq_def)
  then show ?thesis using assms(3,4) len
    by (auto simp: occ_def occurrences_def matchesAt_def)
qed

text \<open>
  Claim C8. For a set of one target sequence and a read in which this sequence occurs,
  within \<open>maxsub\<close> substitutions, at exactly the two offsets \<open>p\<close> and \<open>q\<close>, the
  occurrence at \<open>q\<close> starting at or after the end of the one at \<open>p\<close>: with a reserve
  of zero \<^verbatim>\<open>findLeftmost\<close> reports the start \<open>p\<close> and \<^verbatim>\<open>findRightmost\<close> the
  start \<open>q\<close>.
\<close>

theorem two_occurrences_left_and_right:
  assumes "Target_ctor targetString = Inr t" and "seqcount t = 1" and "0 \<le> maxsub"
    and "occurrences maxsub readString (seq t ! 0) = [p, q]"
    and "p + int (length (seq t ! 0)) \<le> q"
  shows "findLeftmost maxsub t readString (int (length readString)) 0 ms0 = Inr (True, 0, p) \<and>
         findRightmost maxsub t readString (int (length readString)) 0 ms0 = Inr (True, 0, q)"
proof -
  have v: "Target_valid t" using Target_ctor_valid(1)[OF assms(1)] .
  then have sh: "Target_shape t" by (simp add: Target_valid_def)
  have o: "\<And>s. occ maxsub t readString 0 s \<longleftrightarrow> s = p \<or> s = q"
    using occ_numDiff[OF sh assms(3), of 0 readString] assms(2,4) by simp
  have j0: "\<And>j s. occ maxsub t readString j s \<Longrightarrow> j = 0"
    using assms(2) by (simp add: occ_def)
  have len: "seqlen t ! nat 0 = int (length (seq t ! 0))"
    using shape_len[OF sh, of 0] assms(2) by simp
  have pq: "p \<le> q" using assms(5) by simp
  have op: "occ maxsub t readString 0 p" and oq: "occ maxsub t readString 0 q"
    using o by simp_all
  have bp: "p + seqlen t ! nat 0 \<le> int (length readString) - 0"
    and bq: "q + seqlen t ! nat 0 \<le> int (length readString) - 0"
    using occ_bounds(4)[OF v op] occ_bounds(4)[OF v oq] by simp_all
  have z: "(0::int) \<le> 0" by simp
  have L: "findLeftmost maxsub t readString (int (length readString)) 0 ms0 = Inr (True, 0, p)"
  proof (cases rule: findLeftmost_cases[where maxsub=maxsub and r=readString and ?ms0.0=ms0,
           OF sh z, case_names notfound found])
    case notfound
    then show ?thesis using op bp by blast
  next
    case (found mi ms)
    have mi: "mi = 0" using j0[OF found(2)] .
    have "ms = p \<or> ms = q" using found(2) o mi by simp
    moreover have "ms + seqlen t ! nat mi \<le> p + seqlen t ! nat 0" using found(4)[OF op bp] .
    ultimately have "ms = p" using pq mi by auto
    then show ?thesis using found(1) mi by simp
  qed
  have R: "findRightmost maxsub t readString (int (length readString)) 0 ms0 = Inr (True, 0, q)"
  proof (cases rule: findRightmost_cases[where maxsub=maxsub and r=readString and ?ms0.0=ms0,
           OF sh z, case_names notfound found])
    case notfound
    then show ?thesis using oq occ_bounds(3)[OF v oq] by blast
  next
    case (found mi ms)
    have mi: "mi = 0" using j0[OF found(2)] .
    have "ms = p \<or> ms = q" using found(2) o mi by simp
    moreover have "q \<le> ms" using found(4)[OF oq occ_bounds(3)[OF v oq]] .
    ultimately have "ms = q" using pq by auto
    then show ?thesis using found(1) mi by simp
  qed
  show ?thesis using L R by simp
qed

theorem two_occurrences_left_and_right_witness:
  "Target_ctor ''ACGTACGTAC'' =
     Inr \<lparr>want = True, minseqlen = 10, maxseqlen = 10, seqcount = 1, seqlen = [10],
          seq = [''ACGTACGTAC'']\<rparr> \<and>
   occurrences 1 ''TTACGTACGTACTTTACGTACCTACGG'' ''ACGTACGTAC'' = [2, 15] \<and>
   (2::int) + int (length ''ACGTACGTAC'') \<le> 15 \<and>
   findLeftmost 1 \<lparr>want = True, minseqlen = 10, maxseqlen = 10, seqcount = 1, seqlen = [10],
          seq = [''ACGTACGTAC'']\<rparr> ''TTACGTACGTACTTTACGTACCTACGG'' 27 0 0 = Inr (True, 0, 2) \<and>
   findRightmost 1 \<lparr>want = True, minseqlen = 10, maxseqlen = 10, seqcount = 1, seqlen = [10],
          seq = [''ACGTACGTAC'']\<rparr> ''TTACGTACGTACTTTACGTACCTACGG'' 27 0 0 = Inr (True, 0, 15)"
proof -
  let ?t = "\<lparr>want = True, minseqlen = 10, maxseqlen = 10, seqcount = 1, seqlen = [10],
          seq = [''ACGTACGTAC'']\<rparr>"
  have c: "Target_ctor ''ACGTACGTAC'' = Inr ?t" by code_simp
  have n: "seqcount ?t = 1" by simp
  have m: "(0::int) \<le> 1" by simp
  have o: "occurrences 1 ''TTACGTACGTACTTTACGTACCTACGG'' (seq ?t ! 0) = [2, 15]" by code_simp
  have d: "(2::int) + int (length (seq ?t ! 0)) \<le> 15" by simp
  from two_occurrences_left_and_right[OF c n m o d, of 0] c o d show ?thesis by simp
qed

subsection \<open>The result of findLeftmost\<close>

lemma find_cong_set: "(\<And>x. x \<in> set xs \<Longrightarrow> P x = Q x) \<Longrightarrow> find P xs = find Q xs"
  by (induction xs) auto

lemma findLeftmost_step_find:
  assumes "Target_shape t" "0 \<le> i" "i < seqcount t" "lme \<le> int (length r)"
  shows "findLeftmost_step maxsub t r i (mi, ms, lme) =
         Inr (case find (occursAt maxsub r (seq t ! nat i)) [0..lme - seqlen t ! nat i] of
                None \<Rightarrow> (mi, ms, lme)
              | Some start \<Rightarrow> (i, start, start + seqlen t ! nat i - 1))"
proof -
  have len: "seqlen t ! nat i = int (length (seq t ! nat i))"
    using shape_len[OF assms(1-3)] .
  have sc: "findLeftmost_scan maxsub r (seq t ! nat i) (seqlen t ! nat i) 0
              (lme - seqlen t ! nat i) =
            Inr (find (matchesAt maxsub r (seq t ! nat i)) [0..lme - seqlen t ! nat i])"
    unfolding len by (rule findLeftmost_scan_find) (use assms(4) in simp_all)
  have "find (matchesAt maxsub r (seq t ! nat i)) [0..lme - seqlen t ! nat i] =
        find (occursAt maxsub r (seq t ! nat i)) [0..lme - seqlen t ! nat i]"
  proof (rule find_cong_set)
    fix x assume "x \<in> set [0..lme - seqlen t ! nat i]"
    then have b: "0 \<le> x" "x + int (length (seq t ! nat i)) \<le> int (length r)"
      using assms(4) len by simp_all
    show "matchesAt maxsub r (seq t ! nat i) x = occursAt maxsub r (seq t ! nat i) x"
      using isMatch_at[OF b, of maxsub] b by (simp add: matchesAt_def occursAt_def)
  qed
  then show ?thesis using sc
    by (simp add: findLeftmost_step_def split: option.splits)
qed

text \<open>
  Claim C2, as amended. \<^verbatim>\<open>findLeftmost\<close> takes the target sequences in their stored
  order. For the sequence \<open>i\<close> it records the first start offset, from 0 up to the current
  end point less the length of the sequence, at which the sequence matches, and then sets
  the exclusive end point to \<open>start + seqlen[i] - 1\<close>: an occurrence of a later sequence
  must end before the end (not before the start) of the recorded one. With a reserve that
  is not negative, the result is an occurrence that ends at or before the read length less
  the reserve and has the smallest end among all such occurrences of all the sequences, the
  one of the sequence of least index where several end there; and the search reports "not
  found" exactly when there is no such occurrence.
\<close>

theorem findLeftmost_smallest_end:
  assumes "Target_ctor targetString = Inr t" and "0 \<le> rightpad"
  shows "(\<forall>i mi ms lme. 0 \<le> i \<and> i < seqcount t \<and> lme \<le> int (length readString) \<longrightarrow>
            findLeftmost_step maxsub t readString i (mi, ms, lme) =
              Inr (case find (occursAt maxsub readString (seq t ! nat i))
                          [0..lme - seqlen t ! nat i] of
                     None \<Rightarrow> (mi, ms, lme)
                   | Some start \<Rightarrow> (i, start, start + seqlen t ! nat i - 1))) \<and>
         ((\<exists>mi ms.
             findLeftmost maxsub t readString (int (length readString)) rightpad ms0 =
               Inr (True, mi, ms) \<and>
             qualifies maxsub t readString rightpad mi ms \<and>
             (\<forall>j s. qualifies maxsub t readString rightpad j s \<longrightarrow>
                ms + seqlen t ! nat mi \<le> s + seqlen t ! nat j \<and>
                (s + seqlen t ! nat j = ms + seqlen t ! nat mi \<longrightarrow> mi \<le> j))) \<or>
          (findLeftmost maxsub t readString (int (length readString)) rightpad ms0 =
             Inr (False, - 1, ms0) \<and>
           (\<forall>j s. \<not> qualifies maxsub t readString rightpad j s)))"
proof -
  have v: "Target_valid t" using Target_ctor_valid(1)[OF assms(1)] .
  then have sh: "Target_shape t" by (simp add: Target_valid_def)
  have q: "\<And>j s. qualifies maxsub t readString rightpad j s \<longleftrightarrow>
     occ maxsub t readString j s \<and> s + seqlen t ! nat j \<le> int (length readString) - rightpad"
    using occ_occursAt[OF sh] by (auto simp: qualifies_def)
  have step: "\<forall>i mi ms lme. 0 \<le> i \<and> i < seqcount t \<and> lme \<le> int (length readString) \<longrightarrow>
            findLeftmost_step maxsub t readString i (mi, ms, lme) =
              Inr (case find (occursAt maxsub readString (seq t ! nat i))
                          [0..lme - seqlen t ! nat i] of
                     None \<Rightarrow> (mi, ms, lme)
                   | Some start \<Rightarrow> (i, start, start + seqlen t ! nat i - 1))"
    using findLeftmost_step_find[OF sh] by blast
  have fin: "(\<exists>mi ms.
             findLeftmost maxsub t readString (int (length readString)) rightpad ms0 =
               Inr (True, mi, ms) \<and>
             qualifies maxsub t readString rightpad mi ms \<and>
             (\<forall>j s. qualifies maxsub t readString rightpad j s \<longrightarrow>
                ms + seqlen t ! nat mi \<le> s + seqlen t ! nat j \<and>
                (s + seqlen t ! nat j = ms + seqlen t ! nat mi \<longrightarrow> mi \<le> j))) \<or>
          (findLeftmost maxsub t readString (int (length readString)) rightpad ms0 =
             Inr (False, - 1, ms0) \<and>
           (\<forall>j s. \<not> qualifies maxsub t readString rightpad j s))"
  proof (cases rule: findLeftmost_cases[where maxsub=maxsub and r=readString and ?ms0.0=ms0,
           OF sh assms(2), case_names notfound found])
    case notfound
    then show ?thesis unfolding q by blast
  next
    case (found mi ms)
    have "\<forall>j s. qualifies maxsub t readString rightpad j s \<longrightarrow>
                ms + seqlen t ! nat mi \<le> s + seqlen t ! nat j \<and>
                (s + seqlen t ! nat j = ms + seqlen t ! nat mi \<longrightarrow> mi \<le> j)"
      unfolding q using found(4,5) by blast
    moreover have "qualifies maxsub t readString rightpad mi ms"
      unfolding q using found(2,3) by simp
    ultimately show ?thesis using found(1) by blast
  qed
  show ?thesis using step fin by (rule conjI)
qed

theorem findLeftmost_smallest_end_witness:
  "Target_ctor ''AAAAAAAAAAAA|AAAAAAAA'' =
     Inr \<lparr>want = True, minseqlen = 8, maxseqlen = 12, seqcount = 2, seqlen = [12, 8],
          seq = [''AAAAAAAAAAAA'', ''AAAAAAAA'']\<rparr> \<and>
   findLeftmost_step 0 \<lparr>want = True, minseqlen = 8, maxseqlen = 12, seqcount = 2,
          seqlen = [12, 8], seq = [''AAAAAAAAAAAA'', ''AAAAAAAA'']\<rparr>
       ''CCAAAAAAAAAAAACC'' 0 (- 1, 0, 16) = Inr (0, 2, 13) \<and>
   findLeftmost_step 0 \<lparr>want = True, minseqlen = 8, maxseqlen = 12, seqcount = 2,
          seqlen = [12, 8], seq = [''AAAAAAAAAAAA'', ''AAAAAAAA'']\<rparr>
       ''CCAAAAAAAAAAAACC'' 1 (0, 2, 13) = Inr (1, 2, 9) \<and>
   findLeftmost 0 \<lparr>want = True, minseqlen = 8, maxseqlen = 12, seqcount = 2,
          seqlen = [12, 8], seq = [''AAAAAAAAAAAA'', ''AAAAAAAA'']\<rparr>
       ''CCAAAAAAAAAAAACC'' 16 0 0 = Inr (True, 1, 2)"
proof -
  let ?t = "\<lparr>want = True, minseqlen = 8, maxseqlen = 12, seqcount = 2,
          seqlen = [12, 8], seq = [''AAAAAAAAAAAA'', ''AAAAAAAA'']\<rparr>"
  let ?r = "''CCAAAAAAAAAAAACC''"
  have c: "Target_ctor ''AAAAAAAAAAAA|AAAAAAAA'' = Inr ?t" by code_simp
  have p: "(0::int) \<le> 0" by simp
  note w = findLeftmost_smallest_end[where maxsub=0 and readString="?r" and ?ms0.0=0,
      OF c p, THEN conjunct1, rule_format]
  have f0: "find (occursAt 0 ?r (seq ?t ! nat 0)) [0..16 - seqlen ?t ! nat 0] = Some 2"
    by code_simp
  have f1: "find (occursAt 0 ?r (seq ?t ! nat 1)) [0..13 - seqlen ?t ! nat 1] = Some 2"
    by code_simp
  have s0: "findLeftmost_step 0 ?t ?r 0 (- 1, 0, 16) = Inr (0, 2, 13)"
    using w[where i=0 and lme=16 and mi="- 1" and ms=0] f0 by simp
  have s1: "findLeftmost_step 0 ?t ?r 1 (0, 2, 13) = Inr (1, 2, 9)"
    using w[where i=1 and lme=13 and mi=0 and ms=2] f1 by simp
  have f: "findLeftmost 0 ?t ?r 16 0 0 = Inr (True, 1, 2)" by code_simp
  show ?thesis using c s0 s1 f by simp
qed

text \<open>
  Claim C2 as it is written fails: it has the end point tightened so that a later
  occurrence must end before the start of the recorded match. With the sequences
  \<open>AAAAAAAAAA\<close> and \<open>AAAAAAAA\<close> and the read \<open>AAAAAAAAAA\<close>, the first sequence is
  recorded at start 0 and the end point becomes 9; the second is then recorded at start 0,
  ending at 8, which is not before the start 0 of the recorded match.
\<close>

theorem findLeftmost_bound_counterexample:
  "Target_ctor ''AAAAAAAAAA|AAAAAAAA'' =
     Inr \<lparr>want = True, minseqlen = 8, maxseqlen = 10, seqcount = 2, seqlen = [10, 8],
          seq = [''AAAAAAAAAA'', ''AAAAAAAA'']\<rparr> \<and>
   findLeftmost_step 0 \<lparr>want = True, minseqlen = 8, maxseqlen = 10, seqcount = 2,
          seqlen = [10, 8], seq = [''AAAAAAAAAA'', ''AAAAAAAA'']\<rparr>
       ''AAAAAAAAAA'' 0 (- 1, 0, 10) = Inr (0, 0, 9) \<and>
   findLeftmost_step 0 \<lparr>want = True, minseqlen = 8, maxseqlen = 10, seqcount = 2,
          seqlen = [10, 8], seq = [''AAAAAAAAAA'', ''AAAAAAAA'']\<rparr>
       ''AAAAAAAAAA'' 1 (0, 0, 9) = Inr (1, 0, 7) \<and>
   findLeftmost 0 \<lparr>want = True, minseqlen = 8, maxseqlen = 10, seqcount = 2,
          seqlen = [10, 8], seq = [''AAAAAAAAAA'', ''AAAAAAAA'']\<rparr>
       ''AAAAAAAAAA'' 10 0 0 = Inr (True, 1, 0) \<and>
   \<not> (0 + int (length ''AAAAAAAA'') \<le> (0::int))"
  by code_simp

subsection \<open>The decision of a pair and its report\<close>

text \<open>
  Claim C1. For every read and every pair that the constructor accepted, the condition of
  \<^verbatim>\<open>findMatch\<close> is the computation of exactly one branch, the one that the polarity
  of the left set selects; it ends without an error with the value of the two-branch
  decision of the specification, \<open>pairConfirmed\<close>; and \<^verbatim>\<open>findMatch\<close> writes a
  record exactly when this decision holds.
\<close>

theorem findMatch_two_branch_decision:
  assumes "TargetPair_ctor inLabel leftTargetString rightTargetString = Inr tp"
  shows "findMatch_cond maxsub tp readString locals0 =
           (if want (left tp) then presentBranch maxsub tp readString locals0
            else absentBranch maxsub tp readString locals0) \<and>
         (\<exists>s. findMatch_cond maxsub tp readString locals0 =
                Inr (pairConfirmed maxsub tp readString, s)) \<and>
         (\<exists>out. findMatch maxsub tp readName readString locals0 = Inr out \<and>
                 (out \<noteq> [] \<longleftrightarrow> pairConfirmed maxsub tp readString))"
proof -
  note vl = TargetPair_ctor_valid(1)[OF assms] and vr = TargetPair_ctor_valid(2)[OF assms]
  have "findMatch maxsub tp readName readString locals0 =
     Inr (if pairConfirmed maxsub tp readString
          then readName @ [CHR 0x09] @ annotated tolower maxsub tp readString @ [CHR 0x09] @
               label tp @ [CHR 0x0A]
          else [])"
    by (rule findMatch_eval[OF vl vr TargetPair_ctor_Inr(5)[OF assms]])
  then have "\<exists>out. findMatch maxsub tp readName readString locals0 = Inr out \<and>
                 (out \<noteq> [] \<longleftrightarrow> pairConfirmed maxsub tp readString)"
    by simp
  then show ?thesis using findMatch_cond_branch findMatch_cond_confirmed[OF vl vr] by blast
qed

theorem findMatch_two_branch_decision_witness:
  "TargetPair_ctor ''NEG'' ''-AAAACCCC'' ''GGGGTTTT'' =
     Inr \<lparr>label = ''NEG'',
          left = \<lparr>want = False, minseqlen = 8, maxseqlen = 8, seqcount = 1, seqlen = [8],
                   seq = [''AAAACCCC'']\<rparr>,
          right = \<lparr>want = True, minseqlen = 8, maxseqlen = 8, seqcount = 1, seqlen = [8],
                    seq = [''GGGGTTTT'']\<rparr>\<rparr> \<and>
   pairConfirmed 0 \<lparr>label = ''NEG'',
          left = \<lparr>want = False, minseqlen = 8, maxseqlen = 8, seqcount = 1, seqlen = [8],
                   seq = [''AAAACCCC'']\<rparr>,
          right = \<lparr>want = True, minseqlen = 8, maxseqlen = 8, seqcount = 1, seqlen = [8],
                    seq = [''GGGGTTTT'']\<rparr>\<rparr> ''NNNAAAACCCTxxxxGGGGTTTTNNN'' \<and>
   findMatch_cond 0 \<lparr>label = ''NEG'',
          left = \<lparr>want = False, minseqlen = 8, maxseqlen = 8, seqcount = 1, seqlen = [8],
                   seq = [''AAAACCCC'']\<rparr>,
          right = \<lparr>want = True, minseqlen = 8, maxseqlen = 8, seqcount = 1, seqlen = [8],
                    seq = [''GGGGTTTT'']\<rparr>\<rparr> ''NNNAAAACCCTxxxxGGGGTTTTNNN'' (0, 0, 0, 0) =
     absentBranch 0 \<lparr>label = ''NEG'',
          left = \<lparr>want = False, minseqlen = 8, maxseqlen = 8, seqcount = 1, seqlen = [8],
                   seq = [''AAAACCCC'']\<rparr>,
          right = \<lparr>want = True, minseqlen = 8, maxseqlen = 8, seqcount = 1, seqlen = [8],
                    seq = [''GGGGTTTT'']\<rparr>\<rparr> ''NNNAAAACCCTxxxxGGGGTTTTNNN'' (0, 0, 0, 0) \<and>
   (\<exists>s. findMatch_cond 0 \<lparr>label = ''NEG'',
          left = \<lparr>want = False, minseqlen = 8, maxseqlen = 8, seqcount = 1, seqlen = [8],
                   seq = [''AAAACCCC'']\<rparr>,
          right = \<lparr>want = True, minseqlen = 8, maxseqlen = 8, seqcount = 1, seqlen = [8],
                    seq = [''GGGGTTTT'']\<rparr>\<rparr> ''NNNAAAACCCTxxxxGGGGTTTTNNN'' (0, 0, 0, 0) =
      Inr (True, s))"
proof -
  let ?tp = "\<lparr>label = ''NEG'',
          left = \<lparr>want = False, minseqlen = 8, maxseqlen = 8, seqcount = 1, seqlen = [8],
                   seq = [''AAAACCCC'']\<rparr>,
          right = \<lparr>want = True, minseqlen = 8, maxseqlen = 8, seqcount = 1, seqlen = [8],
                    seq = [''GGGGTTTT'']\<rparr>\<rparr>"
  let ?r = "''NNNAAAACCCTxxxxGGGGTTTTNNN''"
  have c: "TargetPair_ctor ''NEG'' ''-AAAACCCC'' ''GGGGTTTT'' = Inr ?tp" by code_simp
  have pc: "pairConfirmed 0 ?tp ?r" by code_simp
  note w = findMatch_two_branch_decision[where maxsub=0 and readString="?r"
      and ?locals0.0="(0, 0, 0, 0)", OF c]
  have b: "findMatch_cond 0 ?tp ?r (0, 0, 0, 0) = absentBranch 0 ?tp ?r (0, 0, 0, 0)"
    using w[THEN conjunct1] by simp
  have e: "\<exists>s. findMatch_cond 0 ?tp ?r (0, 0, 0, 0) = Inr (True, s)"
    using w[THEN conjunct2, THEN conjunct1] pc by simp
  show ?thesis using c pc b e by blast
qed

lemma markDiff_nth:
  assumes "i < length a" "length a = length b"
  shows "markDiff f a b ! i = (if a ! i = b ! i then a ! i else f (a ! i))"
  using assms by (simp add: markDiff_def)

lemma markDiff_length: "length a = length b \<Longrightarrow> length (markDiff f a b) = length a"
  by (simp add: markDiff_def)

text \<open>
  Claim C9, as amended. For a confirmed match the line written is the read name, a tab,
  the annotated read, a tab, the label of the pair and a newline. In the annotated read
  the span of the match of each side that requires presence stands between brackets, in
  read order, with each character as it is in the read where it equals the character of
  the matched target sequence and in lower case (by \<^verbatim>\<open>tolower\<close>, not case-inverted)
  where it differs; the read outside the spans is reproduced as it is.
\<close>

theorem findMatch_output_line:
  assumes "TargetPair_ctor inLabel leftTargetString rightTargetString = Inr tp"
    and "pairConfirmed maxsub tp readString"
  shows "findMatch maxsub tp readName readString locals0 =
           Inr (readName @ [CHR 0x09] @ annotated tolower maxsub tp readString @ [CHR 0x09] @
                label tp @ [CHR 0x0A]) \<and>
         (\<forall>a b. length a = length b \<longrightarrow>
            length (markDiff tolower a b) = length a \<and>
            (\<forall>i < length a.
               markDiff tolower a b ! i = (if a ! i = b ! i then a ! i else tolower (a ! i))))"
proof -
  note vl = TargetPair_ctor_valid(1)[OF assms(1)] and vr = TargetPair_ctor_valid(2)[OF assms(1)]
  have "findMatch maxsub tp readName readString locals0 =
           Inr (readName @ [CHR 0x09] @ annotated tolower maxsub tp readString @ [CHR 0x09] @
                label tp @ [CHR 0x0A])"
    using findMatch_eval[OF vl vr TargetPair_ctor_Inr(5)[OF assms(1)]] assms(2) by simp
  then show ?thesis using markDiff_nth markDiff_length by blast
qed

theorem findMatch_output_line_witness:
  "TargetPair_ctor ''FUS'' ''AAAACCCC'' ''GGGGTTTT'' =
     Inr \<lparr>label = ''FUS'',
          left = \<lparr>want = True, minseqlen = 8, maxseqlen = 8, seqcount = 1, seqlen = [8],
                   seq = [''AAAACCCC'']\<rparr>,
          right = \<lparr>want = True, minseqlen = 8, maxseqlen = 8, seqcount = 1, seqlen = [8],
                    seq = [''GGGGTTTT'']\<rparr>\<rparr> \<and>
   pairConfirmed 1 \<lparr>label = ''FUS'',
          left = \<lparr>want = True, minseqlen = 8, maxseqlen = 8, seqcount = 1, seqlen = [8],
                   seq = [''AAAACCCC'']\<rparr>,
          right = \<lparr>want = True, minseqlen = 8, maxseqlen = 8, seqcount = 1, seqlen = [8],
                    seq = [''GGGGTTTT'']\<rparr>\<rparr> ''NNNAAAACGCCxxxxGGGGTTTTNNN'' \<and>
   findMatch 1 \<lparr>label = ''FUS'',
          left = \<lparr>want = True, minseqlen = 8, maxseqlen = 8, seqcount = 1, seqlen = [8],
                   seq = [''AAAACCCC'']\<rparr>,
          right = \<lparr>want = True, minseqlen = 8, maxseqlen = 8, seqcount = 1, seqlen = [8],
                    seq = [''GGGGTTTT'']\<rparr>\<rparr> ''r1'' ''NNNAAAACGCCxxxxGGGGTTTTNNN'' (0, 0, 0, 0) =
     Inr (''r1'' @ [CHR 0x09] @ ''NNN[AAAACgCC]xxxx[GGGGTTTT]NNN'' @ [CHR 0x09] @ ''FUS'' @
          [CHR 0x0A])"
proof -
  let ?tp = "\<lparr>label = ''FUS'',
          left = \<lparr>want = True, minseqlen = 8, maxseqlen = 8, seqcount = 1, seqlen = [8],
                   seq = [''AAAACCCC'']\<rparr>,
          right = \<lparr>want = True, minseqlen = 8, maxseqlen = 8, seqcount = 1, seqlen = [8],
                    seq = [''GGGGTTTT'']\<rparr>\<rparr>"
  let ?r = "''NNNAAAACGCCxxxxGGGGTTTTNNN''"
  have c: "TargetPair_ctor ''FUS'' ''AAAACCCC'' ''GGGGTTTT'' = Inr ?tp" by code_simp
  have pc: "pairConfirmed 1 ?tp ?r" by code_simp
  have an: "annotated tolower 1 ?tp ?r = ''NNN[AAAACgCC]xxxx[GGGGTTTT]NNN''" by code_simp
  from findMatch_output_line[where readName="''r1''" and ?locals0.0="(0, 0, 0, 0)",
      OF c pc, THEN conjunct1] an c pc
  show ?thesis by simp
qed

text \<open>
  Claim C9 as it is written fails on a read with a lower-case base at a position that
  differs from the target sequence: the \<open>c\<close> of the read differs from the \<open>C\<close> of
  \<open>AAAACCCC\<close> (one substitution, within \<open>maxsub = 1\<close>) and is written as \<open>c\<close>,
  where case inversion would write \<open>C\<close>; the line written is not the line of the claim.
\<close>

theorem findMatch_case_inversion_counterexample:
  "TargetPair_ctor ''FUS'' ''AAAACCCC'' ''GGGGTTTT'' =
     Inr \<lparr>label = ''FUS'',
          left = \<lparr>want = True, minseqlen = 8, maxseqlen = 8, seqcount = 1, seqlen = [8],
                   seq = [''AAAACCCC'']\<rparr>,
          right = \<lparr>want = True, minseqlen = 8, maxseqlen = 8, seqcount = 1, seqlen = [8],
                    seq = [''GGGGTTTT'']\<rparr>\<rparr> \<and>
   pairConfirmed 1 \<lparr>label = ''FUS'',
          left = \<lparr>want = True, minseqlen = 8, maxseqlen = 8, seqcount = 1, seqlen = [8],
                   seq = [''AAAACCCC'']\<rparr>,
          right = \<lparr>want = True, minseqlen = 8, maxseqlen = 8, seqcount = 1, seqlen = [8],
                    seq = [''GGGGTTTT'']\<rparr>\<rparr> ''NNNAAAAcCCCxxxxGGGGTTTTNNN'' \<and>
   findMatch 1 \<lparr>label = ''FUS'',
          left = \<lparr>want = True, minseqlen = 8, maxseqlen = 8, seqcount = 1, seqlen = [8],
                   seq = [''AAAACCCC'']\<rparr>,
          right = \<lparr>want = True, minseqlen = 8, maxseqlen = 8, seqcount = 1, seqlen = [8],
                    seq = [''GGGGTTTT'']\<rparr>\<rparr> ''r1'' ''NNNAAAAcCCCxxxxGGGGTTTTNNN'' (0, 0, 0, 0) =
     Inr (''r1'' @ [CHR 0x09] @ ''NNN[AAAAcCCC]xxxx[GGGGTTTT]NNN'' @ [CHR 0x09] @ ''FUS'' @
          [CHR 0x0A]) \<and>
   annotated invertCase 1 \<lparr>label = ''FUS'',
          left = \<lparr>want = True, minseqlen = 8, maxseqlen = 8, seqcount = 1, seqlen = [8],
                   seq = [''AAAACCCC'']\<rparr>,
          right = \<lparr>want = True, minseqlen = 8, maxseqlen = 8, seqcount = 1, seqlen = [8],
                    seq = [''GGGGTTTT'']\<rparr>\<rparr> ''NNNAAAAcCCCxxxxGGGGTTTTNNN'' =
     ''NNN[AAAACCCC]xxxx[GGGGTTTT]NNN'' \<and>
   findMatch 1 \<lparr>label = ''FUS'',
          left = \<lparr>want = True, minseqlen = 8, maxseqlen = 8, seqcount = 1, seqlen = [8],
                   seq = [''AAAACCCC'']\<rparr>,
          right = \<lparr>want = True, minseqlen = 8, maxseqlen = 8, seqcount = 1, seqlen = [8],
                    seq = [''GGGGTTTT'']\<rparr>\<rparr> ''r1'' ''NNNAAAAcCCCxxxxGGGGTTTTNNN'' (0, 0, 0, 0) \<noteq>
     Inr (''r1'' @ [CHR 0x09] @
          annotated invertCase 1 \<lparr>label = ''FUS'',
            left = \<lparr>want = True, minseqlen = 8, maxseqlen = 8, seqcount = 1, seqlen = [8],
                     seq = [''AAAACCCC'']\<rparr>,
            right = \<lparr>want = True, minseqlen = 8, maxseqlen = 8, seqcount = 1, seqlen = [8],
                      seq = [''GGGGTTTT'']\<rparr>\<rparr> ''NNNAAAAcCCCxxxxGGGGTTTTNNN'' @
          [CHR 0x09] @ ''FUS'' @ [CHR 0x0A])"
  by code_simp

subsection \<open>The string of a reverse complement and its parse\<close>

lemma joinWith_snoc:
  "joinWith d (xs @ [y]) = (if xs = [] then y else joinWith d xs @ [d] @ y)"
  by (induction d xs rule: joinWith.induct) auto

lemma getDelimitedStrings_loop_append:
  "d \<notin> set x \<Longrightarrow>
   getDelimitedStrings_loop d v (x @ rest) = getDelimitedStrings_loop d (v @ x) rest"
  by (induction x arbitrary: v) auto

lemma getDelimitedStrings_loop_join:
  assumes "\<forall>x \<in> set (y # ys). d \<notin> set x"
  shows "getDelimitedStrings_loop d v (joinWith d (y # ys)) = (v @ y) # ys"
  using assms
proof (induction ys arbitrary: y v)
  case Nil
  then show ?case using getDelimitedStrings_loop_append[of d y v "[]"] by simp
next
  case (Cons z zs)
  have "getDelimitedStrings_loop d v (joinWith d (y # z # zs)) =
        getDelimitedStrings_loop d (v @ y) (d # joinWith d (z # zs))"
    using getDelimitedStrings_loop_append[of d y v "d # joinWith d (z # zs)"] Cons(2) by simp
  also have "\<dots> = (v @ y) # getDelimitedStrings_loop d [] (joinWith d (z # zs))" by simp
  also have "getDelimitedStrings_loop d [] (joinWith d (z # zs)) = z # zs"
    using Cons(1)[of z "[]"] Cons(2) by simp
  finally show ?case .
qed

lemma getDelimitedStrings_join:
  assumes "xs \<noteq> []" "\<forall>x \<in> set xs. d \<notin> set x"
  shows "getDelimitedStrings (joinWith d xs) d = xs"
proof -
  obtain y ys where xs: "xs = y # ys" using assms(1) by (cases xs) auto
  show ?thesis unfolding xs getDelimitedStrings_def
    using getDelimitedStrings_loop_join[of y ys d "[]"] assms(2) xs by simp
qed

lemma reverseComplement_foldl:
  assumes "n \<le> length (seq t)"
  shows "foldl (\<lambda>revcomp i.
              let temp = invertSequence (reverseSequence (seq t ! i))
              in revcomp @ (if i > 0 then ''|'' @ temp else temp)) init [0 ..< n] =
         init @ joinWith (CHR ''|'') (map revcomp (take n (seq t)))"
  using assms
proof (induction n)
  case 0
  then show ?case by simp
next
  case (Suc n)
  have lt: "n < length (seq t)" using Suc(2) by simp
  have tk: "take (Suc n) (seq t) = take n (seq t) @ [seq t ! n]"
    using take_Suc_conv_app_nth[OF lt] .
  have e: "take n (seq t) = [] \<longleftrightarrow> n = 0" using lt by auto
  show ?case
    using Suc(1) lt by (auto simp add: tk joinWith_snoc e Let_def revcomp_def)
qed

lemma reverseComplement_join:
  assumes "Target_shape t"
  shows "reverseComplement t =
         (if want t then [] else ''-'') @ joinWith (CHR ''|'') (map revcomp (seq t))"
proof -
  have n: "nat (seqcount t) = length (seq t)" using assms by (simp add: Target_shape_def)
  show ?thesis unfolding reverseComplement_def n
    using reverseComplement_foldl[of "length (seq t)" t] by simp
qed

lemma invertChar_invol: "invertChar (invertChar c) = c"
  by (simp add: invertChar_def)

lemma invertChar_ACGT:
  "c \<in> {CHR ''A'', CHR ''C'', CHR ''G'', CHR ''T''} \<Longrightarrow>
   invertChar c \<in> {CHR ''A'', CHR ''C'', CHR ''G'', CHR ''T''}"
  by (auto simp: invertChar_def)

lemma revcomp_invol: "revcomp (revcomp c) = c"
  by (simp add: revcomp_def invertSequence_def reverseSequence_def rev_map invertChar_invol
        comp_def)

lemma revcomp_length: "length (revcomp c) = length c"
  by (simp add: revcomp_def invertSequence_def reverseSequence_def)

lemma revcomp_ACGT:
  "set c \<subseteq> {CHR ''A'', CHR ''C'', CHR ''G'', CHR ''T''} \<Longrightarrow>
   set (revcomp c) \<subseteq> {CHR ''A'', CHR ''C'', CHR ''G'', CHR ''T''}"
  using invertChar_ACGT by (auto simp: revcomp_def invertSequence_def reverseSequence_def)

lemma toupper_ACGT_id:
  "c \<in> {CHR ''A'', CHR ''C'', CHR ''G'', CHR ''T'', CHR ''|'', CHR ''-''} \<Longrightarrow> toupper c = c"
  by (auto simp: toupper_def)

lemma joinWith_chars: "set (joinWith d xs) \<subseteq> insert d (\<Union>x \<in> set xs. set x)"
  by (induction d xs rule: joinWith.induct) auto

lemma joinWith_hd:
  "xs \<noteq> [] \<Longrightarrow> hd xs \<noteq> [] \<Longrightarrow> joinWith d xs \<noteq> [] \<and> hd (joinWith d xs) = hd (hd xs)"
  by (induction d xs rule: joinWith.induct) auto

lemma minmax_loop_cong:
  "map length xs = map length ys \<Longrightarrow> minmax_loop xs mm = minmax_loop ys mm"
proof (induction xs arbitrary: ys mm)
  case Nil
  then show ?case by simp
next
  case (Cons x xs)
  then obtain y ys' where ys: "ys = y # ys'" by (cases ys) auto
  obtain mn mx where mm: "mm = (mn, mx)" by (cases mm) auto
  have l: "length x = length y" and r: "map length xs = map length ys'"
    using Cons(2) ys by simp_all
  show ?case unfolding ys mm using Cons(1)[OF r] l by simp
qed

lemma Target_ctor_eq:
  assumes s0: "toupperSequence targetString = s0"
    and neg: "neg = (s0 \<noteq> [] \<and> hd s0 = CHR ''-'')"
    and ts: "getDelimitedStrings (if neg then drop 1 s0 else s0) (CHR ''|'') = ts"
    and mm: "minmax_loop (tl ts) (int (length (hd ts)), int (length (hd ts))) = (a, b)"
    and a8: "8 \<le> a" and all: "\<forall>x \<in> set ts. isAllACGT x"
  shows "Target_ctor targetString =
         Inr \<lparr>want = \<not> neg, minseqlen = a, maxseqlen = b, seqcount = int (length ts),
              seqlen = map (\<lambda>x. int (length x)) ts, seq = ts\<rparr>"
proof -
  have n: "(length s0 > 0 \<and> s0 ! 0 = CHR ''-'') = neg"
    unfolding neg by (cases s0) auto
  have f: "find (\<lambda>x. \<not> isAllACGT x) ts = None" using all by (simp add: find_None_iff)
  show ?thesis
    unfolding Target_ctor_def Let_def s0 n ts mm using a8 f
    by (simp add: MIN_TARGET_LENGTH_def)
qed

lemma Target_ctor_mirror:
  assumes "Target_ctor targetString = Inr t"
  shows "Target_ctor (reverseComplement t) = Inr (mirrorTarget t)"
proof -
  from Target_ctor_Inr[OF assms] obtain neg s ts a b where
    mm: "minmax_loop (tl ts) (int (length (hd ts)), int (length (hd ts))) = (a, b)"
    and a8: "8 \<le> a"
    and t: "t = \<lparr>want = \<not> neg, minseqlen = a, maxseqlen = b, seqcount = int (length ts),
          seqlen = map (\<lambda>x. int (length x)) ts, seq = ts\<rparr>"
    by blast
  have v: "Target_valid t" using Target_ctor_valid(1)[OF assms] .
  then have sh: "Target_shape t" by (simp add: Target_valid_def)
  have seqt: "seq t = ts" and wt: "want t = (\<not> neg)" using t by simp_all
  have ne: "ts \<noteq> []" using v seqt by (simp add: Target_valid_def)
  have chars: "\<forall>c \<in> set ts. 8 \<le> length c \<and> set c \<subseteq> {CHR ''A'', CHR ''C'', CHR ''G'', CHR ''T''}"
    using v seqt by (simp add: Target_valid_def)
  let ?ms = "map revcomp ts"
  let ?j = "joinWith (CHR ''|'') ?ms"
  let ?rc = "reverseComplement t"
  have rc: "?rc = (if neg then ''-'' else []) @ ?j"
    using reverseComplement_join[OF sh] seqt wt by simp
  have mchars: "\<forall>c \<in> set ?ms. set c \<subseteq> {CHR ''A'', CHR ''C'', CHR ''G'', CHR ''T''}"
    using chars revcomp_ACGT by auto
  have jchars: "set ?j \<subseteq> {CHR ''A'', CHR ''C'', CHR ''G'', CHR ''T'', CHR ''|''}"
    using joinWith_chars[of "CHR ''|''" ?ms] mchars by auto
  have rcchars: "set ?rc \<subseteq> {CHR ''A'', CHR ''C'', CHR ''G'', CHR ''T'', CHR ''|'', CHR ''-''}"
    using jchars rc by auto
  have up: "toupperSequence ?rc = ?rc"
    unfolding toupperSequence_def using rcchars toupper_ACGT_id by (intro map_idI) blast
  have hdms: "hd ?ms \<noteq> []"
  proof (cases ts)
    case Nil
    then show ?thesis using ne by simp
  next
    case (Cons x xs)
    then have "8 \<le> length x" using chars by simp
    then have "x \<noteq> []" by auto
    then have "revcomp x \<noteq> []" using revcomp_length[of x] by (metis length_0_conv)
    then show ?thesis using Cons by simp
  qed
  have jne: "?j \<noteq> []" and hdj: "hd ?j = hd (hd ?ms)"
    using joinWith_hd[of ?ms "CHR ''|''"] ne hdms by simp_all
  have "hd (hd ?ms) \<in> set (hd ?ms)" using hdms by simp
  moreover have "hd ?ms \<in> set ?ms" using ne by (intro hd_in_set) simp
  ultimately have "hd (hd ?ms) \<in> {CHR ''A'', CHR ''C'', CHR ''G'', CHR ''T''}"
    using mchars by blast
  then have hdne: "hd ?j \<noteq> CHR ''-''" using hdj by auto
  have neg': "neg = (?rc \<noteq> [] \<and> hd ?rc = CHR ''-'')"
    using rc jne hdne by (cases neg) auto
  have strip: "(if neg then drop 1 ?rc else ?rc) = ?j" using rc by (cases neg) auto
  have nobar: "\<forall>x \<in> set ?ms. CHR ''|'' \<notin> set x" using mchars by auto
  have split: "getDelimitedStrings (if neg then drop 1 ?rc else ?rc) (CHR ''|'') = ?ms"
    unfolding strip using getDelimitedStrings_join[of ?ms "CHR ''|''"] ne nobar by simp
  have lens: "map length ?ms = map length ts" by (simp add: revcomp_length comp_def)
  have hdlen: "length (hd ?ms) = length (hd ts)" using ne by (cases ts) (auto simp: revcomp_length)
  have tllens: "map length (tl ?ms) = map length (tl ts)"
    using ne by (cases ts) (auto simp: revcomp_length comp_def)
  have mm': "minmax_loop (tl ?ms) (int (length (hd ?ms)), int (length (hd ?ms))) = (a, b)"
    unfolding hdlen using minmax_loop_cong[OF tllens] mm by simp
  have all: "\<forall>x \<in> set ?ms. isAllACGT x"
  proof
    fix x assume "x \<in> set ?ms"
    then have "set x \<subseteq> {CHR ''A'', CHR ''C'', CHR ''G'', CHR ''T''}" using mchars by blast
    then have "\<forall>c \<in> set x. isACGT c"
      using toupper_ACGT_id by (auto simp: isACGT_def Let_def)
    then show "isAllACGT x" by (simp add: isAllACGT_def list_all_iff)
  qed
  have "Target_ctor ?rc =
         Inr \<lparr>want = \<not> neg, minseqlen = a, maxseqlen = b, seqcount = int (length ?ms),
              seqlen = map (\<lambda>x. int (length x)) ?ms, seq = ?ms\<rparr>"
    by (rule Target_ctor_eq[OF up neg' split mm' a8 all])
  also have "\<dots> = Inr (mirrorTarget t)"
    unfolding t mirrorTarget_def by (simp add: revcomp_length comp_def)
  finally show ?thesis .
qed

lemma mirrorTarget_invol: "mirrorTarget (mirrorTarget t) = t"
  by (simp add: mirrorTarget_def revcomp_invol comp_def)

subsection \<open>When the constructors fail\<close>

lemma createReverseComplement_mirror:
  assumes "TargetPair_ctor inLabel l r = Inr tp"
  shows "createReverseComplement tp =
         Inr \<lparr>label = label tp, left = mirrorTarget (right tp), right = mirrorTarget (left tp)\<rparr>"
proof -
  note c = TargetPair_ctor_Inr[OF assms]
  have l: "Target_ctor (reverseComplement (left tp)) = Inr (mirrorTarget (left tp))"
    using Target_ctor_mirror[OF c(1)] .
  have r: "Target_ctor (reverseComplement (right tp)) = Inr (mirrorTarget (right tp))"
    using Target_ctor_mirror[OF c(2)] .
  show ?thesis
    unfolding createReverseComplement_def Let_def TargetPair_ctor_def l r
    using c(3,4,5) by (auto simp: mirrorTarget_def)
qed

lemma revcomp_swapBase:
  assumes "set c \<subseteq> {CHR ''A'', CHR ''C'', CHR ''G'', CHR ''T''}"
  shows "revcomp c = map swapBase (rev c)"
proof -
  have "\<And>x. x \<in> set c \<Longrightarrow> invertChar x = swapBase x"
    using assms by (auto simp: invertChar_def swapBase_def)
  then show ?thesis
    by (simp add: revcomp_def invertSequence_def reverseSequence_def)
qed

lemma toupper_dash: "toupper c = CHR ''-'' \<longleftrightarrow> c = CHR ''-''"
proof (cases "97 \<le> (of_char c :: nat) \<and> (of_char c :: nat) \<le> 122")
  case True
  then have lt: "(of_char c :: nat) - 32 < 256" by linarith
  have e: "(of_char (char_of ((of_char c :: nat) - 32)) :: nat) = of_char c - 32"
    using lt by (simp only: of_char_of mod_less)
  have n45: "(of_char c :: nat) - 32 \<noteq> 45" using True by linarith
  have "char_of ((of_char c :: nat) - 32) \<noteq> CHR ''-''"
  proof
    assume "char_of ((of_char c :: nat) - 32) = CHR ''-''"
    then have "(of_char (char_of ((of_char c :: nat) - 32)) :: nat) = of_char (CHR ''-'')"
      by (rule arg_cong)
    then have "(of_char c :: nat) - 32 = 45" unfolding e by simp
    then show False using n45 by simp
  qed
  moreover have "c \<noteq> CHR ''-''" using True by auto
  ultimately show ?thesis using True by (simp add: toupper_def)
next
  case False
  then show ?thesis by (auto simp: toupper_def)
qed

lemma Target_ctor_unfold:
  "Target_ctor targetString =
     (let ts = candidates targetString;
          mm = minmax_loop (tl ts) (int (length (hd ts)), int (length (hd ts)))
      in if fst mm < 8
         then Inl (RuntimeError (''invalid sequence length in '' @ targetString))
         else (case find (\<lambda>x. \<not> isAllACGT x) ts of
                 Some bad \<Rightarrow> Inl (RuntimeError (''invalid character in '' @ bad))
               | None \<Rightarrow>
                   Inr \<lparr>want = \<not> absent targetString, minseqlen = fst mm, maxseqlen = snd mm,
                        seqcount = int (length ts),
                        seqlen = map (\<lambda>x. int (length x)) ts, seq = ts\<rparr>))"
proof -
  have n: "(length (toupperSequence targetString) > 0 \<and>
            toupperSequence targetString ! 0 = CHR ''-'') = absent targetString"
    by (cases targetString) (auto simp: absent_def toupperSequence_def toupper_dash)
  show ?thesis
    unfolding Target_ctor_def Let_def n candidates_def MIN_TARGET_LENGTH_def by simp
qed

lemma candidates_upper:
  assumes "c \<in> set (candidates s)" "ch \<in> set c"
  shows "toupper ch = ch"
proof -
  have "set c \<subseteq> set (toupperSequence s)"
    using getDelimitedStrings_chars[OF assms(1)[unfolded candidates_def]]
    by (auto split: if_splits dest!: in_set_dropD)
  then obtain y where "ch = toupper y" using assms(2) by (auto simp: toupperSequence_def)
  then show ?thesis by (simp add: toupper_idem)
qed

lemma candidates_ne: "candidates s \<noteq> []"
  by (simp add: candidates_def getDelimitedStrings_ne)

lemma Target_ctor_fails_iff:
  "(\<exists>e. Target_ctor s = Inl e) \<longleftrightarrow>
   (\<exists>c \<in> set (candidates s).
      length c < 8 \<or> (\<exists>ch \<in> set c. ch \<notin> {CHR ''A'', CHR ''C'', CHR ''G'', CHR ''T''}))"
proof -
  let ?ts = "candidates s"
  obtain a b where mm: "minmax_loop (tl ?ts) (int (length (hd ?ts)), int (length (hd ?ts))) = (a, b)"
    by (cases "minmax_loop (tl ?ts) (int (length (hd ?ts)), int (length (hd ?ts)))") auto
  have hts: "?ts = hd ?ts # tl ?ts" using candidates_ne by simp
  have setts: "set ?ts = insert (hd ?ts) (set (tl ?ts))" using hts by (metis list.simps(15))
  have p: "(\<forall>x \<in> set ?ts. a \<le> int (length x)) \<and> a \<in> (\<lambda>x. int (length x)) ` set ?ts"
    using minmax_loop_props[OF _ mm] setts by auto
  have short: "a < 8 \<longleftrightarrow> (\<exists>c \<in> set ?ts. length c < 8)"
  proof
    assume "a < 8"
    then show "\<exists>c \<in> set ?ts. length c < 8" using p by auto
  next
    assume "\<exists>c \<in> set ?ts. length c < 8"
    then obtain c where "c \<in> set ?ts" "length c < 8" by blast
    then show "a < 8" using p by fastforce
  qed
  have bad: "find (\<lambda>x. \<not> isAllACGT x) ?ts \<noteq> None \<longleftrightarrow>
     (\<exists>c \<in> set ?ts. \<exists>ch \<in> set c. ch \<notin> {CHR ''A'', CHR ''C'', CHR ''G'', CHR ''T''})"
  proof -
    have "\<And>c ch. c \<in> set ?ts \<Longrightarrow> ch \<in> set c \<Longrightarrow>
            isACGT ch \<longleftrightarrow> ch \<in> {CHR ''A'', CHR ''C'', CHR ''G'', CHR ''T''}"
      using candidates_upper by (auto simp: isACGT_def Let_def)
    then have "\<And>c. c \<in> set ?ts \<Longrightarrow>
            isAllACGT c \<longleftrightarrow> (\<forall>ch \<in> set c. ch \<in> {CHR ''A'', CHR ''C'', CHR ''G'', CHR ''T''})"
      by (simp add: isAllACGT_def list_all_iff)
    then show ?thesis by (auto simp: find_None_iff)
  qed
  show ?thesis
    unfolding Target_ctor_unfold Let_def mm using short bad
    by (auto split: option.splits)
qed

lemma Target_ctor_want:
  assumes "Target_ctor s = Inr t"
  shows "want t = (\<not> absent s)" "seq t = candidates s"
  using assms unfolding Target_ctor_unfold Let_def
  by (auto split: if_splits option.splits)

lemma TargetPair_ctor_fails_iff:
  "(\<exists>e. TargetPair_ctor inLabel l r = Inl e) \<longleftrightarrow>
   inLabel = [] \<or>
   (\<exists>c \<in> set (candidates l) \<union> set (candidates r).
      length c < 8 \<or> (\<exists>ch \<in> set c. ch \<notin> {CHR ''A'', CHR ''C'', CHR ''G'', CHR ''T''})) \<or>
   (absent l \<and> absent r)"
proof (cases "Target_ctor l")
  case (Inl e)
  then have "\<exists>c \<in> set (candidates l).
      length c < 8 \<or> (\<exists>ch \<in> set c. ch \<notin> {CHR ''A'', CHR ''C'', CHR ''G'', CHR ''T''})"
    using Target_ctor_fails_iff[of l] by blast
  then show ?thesis using Inl by (auto simp: TargetPair_ctor_def)
next
  case l: (Inr lt)
  then have nl: "\<not> (\<exists>c \<in> set (candidates l).
      length c < 8 \<or> (\<exists>ch \<in> set c. ch \<notin> {CHR ''A'', CHR ''C'', CHR ''G'', CHR ''T''}))"
    using Target_ctor_fails_iff[of l] by auto
  show ?thesis
  proof (cases "Target_ctor r")
    case (Inl e)
    then have "\<exists>c \<in> set (candidates r).
        length c < 8 \<or> (\<exists>ch \<in> set c. ch \<notin> {CHR ''A'', CHR ''C'', CHR ''G'', CHR ''T''})"
      using Target_ctor_fails_iff[of r] by blast
    then show ?thesis using Inl l by (auto simp: TargetPair_ctor_def)
  next
    case r: (Inr rt)
    then have nr: "\<not> (\<exists>c \<in> set (candidates r).
        length c < 8 \<or> (\<exists>ch \<in> set c. ch \<notin> {CHR ''A'', CHR ''C'', CHR ''G'', CHR ''T''}))"
      using Target_ctor_fails_iff[of r] by auto
    have w: "want lt = (\<not> absent l)" "want rt = (\<not> absent r)"
      using Target_ctor_want(1)[OF l] Target_ctor_want(1)[OF r] by simp_all
    show ?thesis using l r nl nr w by (auto simp: TargetPair_ctor_def)
  qed
qed

lemma line_cases:
  obtains
    (bad) e where "malformed line"
      "\<And>rest acc. readTargetPairs_loop (line # rest) acc = Inl e"
  | (good) tp where "\<not> malformed line"
      "length (getDelimitedStrings line (CHR 0x09)) = 3"
      "TargetPair_ctor (getDelimitedStrings line (CHR 0x09) ! 0)
         (getDelimitedStrings line (CHR 0x09) ! 1)
         (getDelimitedStrings line (CHR 0x09) ! 2) = Inr tp"
      "\<And>rest acc. readTargetPairs_loop (line # rest) acc =
                    readTargetPairs_loop rest (acc @ [tp, mirrorPair tp])"
proof -
  let ?col = "getDelimitedStrings line (CHR 0x09)"
  show ?thesis
  proof (cases "length ?col \<noteq> 3")
    case True
    show ?thesis
    proof (rule bad)
      show "malformed line" using True by (simp add: malformed_def Let_def)
      show "\<And>rest acc. readTargetPairs_loop (line # rest) acc =
              Inl (RuntimeError (''unexpected #columns in '' @ line))"
        using True by (simp add: Let_def)
    qed
  next
    case False
    then have len: "length ?col = 3" by simp
    show ?thesis
    proof (cases "TargetPair_ctor (?col ! 0) (?col ! 1) (?col ! 2)")
      case (Inl e)
      show ?thesis
      proof (rule bad)
        have "\<exists>e. TargetPair_ctor (?col ! 0) (?col ! 1) (?col ! 2) = Inl e" using Inl by blast
        then show "malformed line"
          unfolding TargetPair_ctor_fails_iff by (auto simp: malformed_def Let_def)
        show "\<And>rest acc. readTargetPairs_loop (line # rest) acc = Inl e"
          using len Inl by (simp add: Let_def)
      qed
    next
      case (Inr tp)
      show ?thesis
      proof (rule good)
        have "\<not> (\<exists>e. TargetPair_ctor (?col ! 0) (?col ! 1) (?col ! 2) = Inl e)"
          using Inr by simp
        then show "\<not> malformed line"
          unfolding TargetPair_ctor_fails_iff using len by (auto simp: malformed_def Let_def)
        show "length ?col = 3" using len .
        show "TargetPair_ctor (?col ! 0) (?col ! 1) (?col ! 2) = Inr tp" using Inr .
        have m: "createReverseComplement tp = Inr (mirrorPair tp)"
          using createReverseComplement_mirror[OF Inr] by (simp add: mirrorPair_def)
        show "\<And>rest acc. readTargetPairs_loop (line # rest) acc =
                    readTargetPairs_loop rest (acc @ [tp, mirrorPair tp])"
          using len Inr m by (simp add: Let_def)
      qed
    qed
  qed
qed

lemma readTargetPairs_loop_malformed:
  assumes "line \<in> set lines" "malformed line"
  shows "\<exists>e. readTargetPairs_loop lines acc = Inl e"
  using assms(1)
proof (induction lines arbitrary: acc)
  case Nil
  then show ?case by simp
next
  case (Cons l ls)
  show ?case
  proof (cases rule: line_cases[of l])
    case (bad e)
    then show ?thesis by blast
  next
    case (good tp)
    then have "line \<in> set ls" using Cons(2) assms(2) by auto
    then show ?thesis using Cons(1) good(4) by simp
  qed
qed

lemma readTargetPairs_loop_length:
  "readTargetPairs_loop lines acc = Inr cat \<Longrightarrow> length cat = length acc + 2 * length lines"
proof (induction lines arbitrary: acc)
  case Nil
  then show ?case by simp
next
  case (Cons l ls)
  show ?case
  proof (cases rule: line_cases[of l])
    case (bad e)
    then show ?thesis using Cons(2) by simp
  next
    case (good tp)
    then have "readTargetPairs_loop ls (acc @ [tp, mirrorPair tp]) = Inr cat"
      using Cons(2) by simp
    from Cons(1)[OF this] show ?thesis by simp
  qed
qed

subsection \<open>The mirror of a mirror\<close>

text \<open>
  Claim C6. Reversing a string and swapping its bases, done twice, gives the string back,
  for every string. For a set that the constructor accepted, the constructor accepts the
  string of its reverse complement and gives the mirror: the same polarity and, in the
  same order, each target sequence reversed and inverted; and the mirror of the mirror is
  the set itself.
\<close>

theorem reverse_complement_involution:
  assumes "Target_ctor targetString = Inr t"
  shows "(\<forall>s. invertSequence (reverseSequence (invertSequence (reverseSequence s))) = s) \<and>
         (\<exists>m. Target_ctor (reverseComplement t) = Inr m \<and>
               want m = want t \<and>
               seq m = map (\<lambda>c. invertSequence (reverseSequence c)) (seq t) \<and>
               Target_ctor (reverseComplement m) = Inr t)"
proof -
  have a: "\<forall>s. invertSequence (reverseSequence (invertSequence (reverseSequence s))) = s"
    using revcomp_invol by (simp add: revcomp_def)
  have m: "Target_ctor (reverseComplement t) = Inr (mirrorTarget t)"
    using Target_ctor_mirror[OF assms] .
  have mm: "Target_ctor (reverseComplement (mirrorTarget t)) = Inr t"
    using Target_ctor_mirror[OF m] by (simp add: mirrorTarget_invol)
  have "want (mirrorTarget t) = want t \<and>
        seq (mirrorTarget t) = map (\<lambda>c. invertSequence (reverseSequence c)) (seq t)"
    by (simp add: mirrorTarget_def revcomp_def)
  then show ?thesis using a m mm by blast
qed

theorem reverse_complement_involution_witness:
  "Target_ctor ''-aaaacccg|ACGTTGCAAT'' =
     Inr \<lparr>want = False, minseqlen = 8, maxseqlen = 10, seqcount = 2, seqlen = [8, 10],
          seq = [''AAAACCCG'', ''ACGTTGCAAT'']\<rparr> \<and>
   reverseComplement \<lparr>want = False, minseqlen = 8, maxseqlen = 10, seqcount = 2,
          seqlen = [8, 10], seq = [''AAAACCCG'', ''ACGTTGCAAT'']\<rparr> = ''-CGGGTTTT|ATTGCAACGT'' \<and>
   Target_ctor ''-CGGGTTTT|ATTGCAACGT'' =
     Inr \<lparr>want = False, minseqlen = 8, maxseqlen = 10, seqcount = 2, seqlen = [8, 10],
          seq = [''CGGGTTTT'', ''ATTGCAACGT'']\<rparr> \<and>
   Target_ctor (reverseComplement \<lparr>want = False, minseqlen = 8, maxseqlen = 10, seqcount = 2,
          seqlen = [8, 10], seq = [''CGGGTTTT'', ''ATTGCAACGT'']\<rparr>) =
     Inr \<lparr>want = False, minseqlen = 8, maxseqlen = 10, seqcount = 2, seqlen = [8, 10],
          seq = [''AAAACCCG'', ''ACGTTGCAAT'']\<rparr>"
proof -
  let ?t = "\<lparr>want = False, minseqlen = 8, maxseqlen = 10, seqcount = 2,
          seqlen = [8, 10], seq = [''AAAACCCG'', ''ACGTTGCAAT'']\<rparr>"
  let ?m = "\<lparr>want = False, minseqlen = 8, maxseqlen = 10, seqcount = 2, seqlen = [8, 10],
          seq = [''CGGGTTTT'', ''ATTGCAACGT'']\<rparr>"
  have c: "Target_ctor ''-aaaacccg|ACGTTGCAAT'' = Inr ?t" by code_simp
  have r: "reverseComplement ?t = ''-CGGGTTTT|ATTGCAACGT''" by code_simp
  have cm: "Target_ctor ''-CGGGTTTT|ATTGCAACGT'' = Inr ?m" by code_simp
  from reverse_complement_involution[OF c, THEN conjunct2]
  have "Target_ctor (reverseComplement ?m) = Inr ?t" unfolding r cm by auto
  then show ?thesis using c r cm by simp
qed

subsection \<open>The catalog\<close>

lemma readTargetPairs_loop_constructed:
  assumes "readTargetPairs_loop lines acc = Inr cat" "p \<in> set cat"
  shows "p \<in> set acc \<or> (\<exists>inLabel l r. TargetPair_ctor inLabel l r = Inr p)"
  using assms
proof (induction lines arbitrary: acc)
  case Nil
  then show ?case by simp
next
  case (Cons ln ls)
  show ?case
  proof (cases rule: line_cases[of ln])
    case (bad e)
    then show ?thesis using Cons(2) by simp
  next
    case (good tp)
    then have "readTargetPairs_loop ls (acc @ [tp, mirrorPair tp]) = Inr cat"
      using Cons(2) by simp
    from Cons(1)[OF this Cons(3)] consider "p \<in> set acc" | "p = tp" | "p = mirrorPair tp"
      | "\<exists>inLabel l r. TargetPair_ctor inLabel l r = Inr p" by auto
    then show ?thesis
    proof cases
      case 3
      have "createReverseComplement tp = Inr p"
        using createReverseComplement_mirror[OF good(3)] 3 by (simp add: mirrorPair_def)
      then show ?thesis unfolding createReverseComplement_def Let_def by blast
    qed (use good(3) in blast)+
  qed
qed

lemma TargetPair_ctor_survivor:
  assumes "TargetPair_ctor inLabel l r = Inr tp"
  shows "(want (left tp) \<or> want (right tp)) \<and>
         (\<forall>c \<in> set (seq (left tp)) \<union> set (seq (right tp)). 8 \<le> length c)"
  using TargetPair_ctor_Inr(5)[OF assms] TargetPair_ctor_valid[OF assms]
  by (auto simp: Target_valid_def)

text \<open>
  Claim C5. For a line of three columns from which the constructor builds a pair, the
  constructor also builds the mirror, and the loop of \<^verbatim>\<open>readTargetPairs\<close> goes on with
  exactly these two entries appended to the catalog, the pair and then its mirror. The
  mirror has the label of the pair; its left set has the polarity of the right set of the
  pair and, in the same order, each of its target sequences reversed with A and T swapped
  and C and G swapped; its right set is the same of the left set of the pair. So a catalog
  read without error has two entries for each line.
\<close>

theorem catalog_gains_pair_and_mirror:
  assumes "getDelimitedStrings line (CHR 0x09) = [c0, c1, c2]"
    and "TargetPair_ctor c0 c1 c2 = Inr tp"
  shows "(\<exists>rc. createReverseComplement tp = Inr rc \<and>
            readTargetPairs_loop (line # rest) targetPair =
              readTargetPairs_loop rest (targetPair @ [tp, rc]) \<and>
            label rc = label tp \<and>
            want (left rc) = want (right tp) \<and>
            seq (left rc) = map (\<lambda>c. map swapBase (rev c)) (seq (right tp)) \<and>
            want (right rc) = want (left tp) \<and>
            seq (right rc) = map (\<lambda>c. map swapBase (rev c)) (seq (left tp))) \<and>
         (\<forall>lines cat. readTargetPairs_loop lines targetPair = Inr cat \<longrightarrow>
            length cat = length targetPair + 2 * length lines)"
proof -
  have m: "createReverseComplement tp = Inr (mirrorPair tp)"
    using createReverseComplement_mirror[OF assms(2)] by (simp add: mirrorPair_def)
  have step: "readTargetPairs_loop (line # rest) targetPair =
              readTargetPairs_loop rest (targetPair @ [tp, mirrorPair tp])"
    using assms m by (simp add: Let_def)
  note v = TargetPair_ctor_valid[OF assms(2)]
  have sw: "\<And>t. Target_valid t \<Longrightarrow> map revcomp (seq t) = map (\<lambda>c. map swapBase (rev c)) (seq t)"
    using revcomp_swapBase by (auto simp: Target_valid_def)
  have f: "label (mirrorPair tp) = label tp \<and>
            want (left (mirrorPair tp)) = want (right tp) \<and>
            seq (left (mirrorPair tp)) = map (\<lambda>c. map swapBase (rev c)) (seq (right tp)) \<and>
            want (right (mirrorPair tp)) = want (left tp) \<and>
            seq (right (mirrorPair tp)) = map (\<lambda>c. map swapBase (rev c)) (seq (left tp))"
    using sw[OF v(1)] sw[OF v(2)] by (simp add: mirrorPair_def mirrorTarget_def)
  show ?thesis using m step f readTargetPairs_loop_length by blast
qed

theorem catalog_gains_pair_and_mirror_witness:
  "getDelimitedStrings (''FUS'' @ [CHR 0x09] @ ''AAAACCCG'' @ [CHR 0x09] @ ''-GGGGTTTT|acgtacgtaa'')
     (CHR 0x09) = [''FUS'', ''AAAACCCG'', ''-GGGGTTTT|acgtacgtaa''] \<and>
   TargetPair_ctor ''FUS'' ''AAAACCCG'' ''-GGGGTTTT|acgtacgtaa'' =
     Inr \<lparr>label = ''FUS'',
          left = \<lparr>want = True, minseqlen = 8, maxseqlen = 8, seqcount = 1, seqlen = [8],
                   seq = [''AAAACCCG'']\<rparr>,
          right = \<lparr>want = False, minseqlen = 8, maxseqlen = 10, seqcount = 2, seqlen = [8, 10],
                    seq = [''GGGGTTTT'', ''ACGTACGTAA'']\<rparr>\<rparr> \<and>
   readTargetPairs_loop
     [''FUS'' @ [CHR 0x09] @ ''AAAACCCG'' @ [CHR 0x09] @ ''-GGGGTTTT|acgtacgtaa''] [] =
     Inr [\<lparr>label = ''FUS'',
           left = \<lparr>want = True, minseqlen = 8, maxseqlen = 8, seqcount = 1, seqlen = [8],
                    seq = [''AAAACCCG'']\<rparr>,
           right = \<lparr>want = False, minseqlen = 8, maxseqlen = 10, seqcount = 2,
                     seqlen = [8, 10], seq = [''GGGGTTTT'', ''ACGTACGTAA'']\<rparr>\<rparr>,
          \<lparr>label = ''FUS'',
           left = \<lparr>want = False, minseqlen = 8, maxseqlen = 10, seqcount = 2,
                    seqlen = [8, 10], seq = [''AAAACCCC'', ''TTACGTACGT'']\<rparr>,
           right = \<lparr>want = True, minseqlen = 8, maxseqlen = 8, seqcount = 1, seqlen = [8],
                     seq = [''CGGGTTTT'']\<rparr>\<rparr>] \<and>
   length [\<lparr>label = ''FUS'',
           left = \<lparr>want = True, minseqlen = 8, maxseqlen = 8, seqcount = 1, seqlen = [8],
                    seq = [''AAAACCCG'']\<rparr>,
           right = \<lparr>want = False, minseqlen = 8, maxseqlen = 10, seqcount = 2,
                     seqlen = [8, 10], seq = [''GGGGTTTT'', ''ACGTACGTAA'']\<rparr>\<rparr>,
          \<lparr>label = ''FUS'',
           left = \<lparr>want = False, minseqlen = 8, maxseqlen = 10, seqcount = 2,
                    seqlen = [8, 10], seq = [''AAAACCCC'', ''TTACGTACGT'']\<rparr>,
           right = \<lparr>want = True, minseqlen = 8, maxseqlen = 8, seqcount = 1, seqlen = [8],
                     seq = [''CGGGTTTT'']\<rparr>\<rparr>] =
     length ([] :: TargetPair list) + 2 * length [''FUS'' @ [CHR 0x09] @ ''AAAACCCG'' @ [CHR 0x09] @ ''-GGGGTTTT|acgtacgtaa'']"
proof -
  let ?line = "''FUS'' @ [CHR 0x09] @ ''AAAACCCG'' @ [CHR 0x09] @ ''-GGGGTTTT|acgtacgtaa''"
  let ?tp = "\<lparr>label = ''FUS'',
           left = \<lparr>want = True, minseqlen = 8, maxseqlen = 8, seqcount = 1, seqlen = [8],
                    seq = [''AAAACCCG'']\<rparr>,
           right = \<lparr>want = False, minseqlen = 8, maxseqlen = 10, seqcount = 2,
                     seqlen = [8, 10], seq = [''GGGGTTTT'', ''ACGTACGTAA'']\<rparr>\<rparr>"
  let ?rc = "\<lparr>label = ''FUS'',
           left = \<lparr>want = False, minseqlen = 8, maxseqlen = 10, seqcount = 2,
                    seqlen = [8, 10], seq = [''AAAACCCC'', ''TTACGTACGT'']\<rparr>,
           right = \<lparr>want = True, minseqlen = 8, maxseqlen = 8, seqcount = 1, seqlen = [8],
                     seq = [''CGGGTTTT'']\<rparr>\<rparr>"
  have g: "getDelimitedStrings ?line (CHR 0x09) = [''FUS'', ''AAAACCCG'', ''-GGGGTTTT|acgtacgtaa'']"
    by code_simp
  have c: "TargetPair_ctor ''FUS'' ''AAAACCCG'' ''-GGGGTTTT|acgtacgtaa'' = Inr ?tp" by code_simp
  have l: "readTargetPairs_loop [?line] [] = Inr [?tp, ?rc]" by code_simp
  from catalog_gains_pair_and_mirror[OF g c, where targetPair="[]", THEN conjunct2, rule_format,
      OF l]
  have "length [?tp, ?rc] = length ([] :: TargetPair list) + 2 * length [?line]" .
  then show ?thesis using g c l by blast
qed

text \<open>
  Claim C7. Reading a line fails exactly when the line is malformed: it has not three
  columns, or its label is empty, or a candidate of one of its sides is shorter than 8 or
  has a character other than A, C, G and T after uppercasing, or both sides have the
  absence polarity. A malformed line among the lines makes \<^verbatim>\<open>readTargetPairs\<close> fail,
  and \<^verbatim>\<open>readBamFile\<close> ends with this error whatever the alignments are: no read is
  scanned. A pair that the constructor accepted, and so every pair of a catalog that was
  read, has a side that requires presence and only target sequences of length at least 8.
\<close>

theorem malformed_line_is_fatal:
  "((\<exists>e. readTargetPairs_loop [line] [] = Inl e) \<longleftrightarrow> malformed line) \<and>
   (line \<in> set lines \<and> malformed line \<longrightarrow>
      (\<exists>e. readTargetPairs lines = Inl e \<and>
           (\<forall>maxsub bam_filename alignments locals0.
              readBamFile maxsub bam_filename True lines alignments locals0 = Inl e))) \<and>
   (TargetPair_ctor inLabel leftTargetString rightTargetString = Inr tp \<longrightarrow>
      (want (left tp) \<or> want (right tp)) \<and>
      (\<forall>c \<in> set (seq (left tp)) \<union> set (seq (right tp)). 8 \<le> length c)) \<and>
   (readTargetPairs lines = Inr cat \<longrightarrow>
      (\<forall>p \<in> set cat. (want (left p) \<or> want (right p)) \<and>
         (\<forall>c \<in> set (seq (left p)) \<union> set (seq (right p)). 8 \<le> length c)))"
proof (intro conjI impI)
  show "(\<exists>e. readTargetPairs_loop [line] [] = Inl e) \<longleftrightarrow> malformed line"
  proof (cases rule: line_cases[of line])
    case (bad e)
    then show ?thesis by blast
  next
    case (good tp)
    have "readTargetPairs_loop [line] [] = Inr [tp, mirrorPair tp]"
      by (subst good(4)) simp
    then show ?thesis using good(1) by simp
  qed
next
  assume "line \<in> set lines \<and> malformed line"
  then obtain e where "readTargetPairs_loop lines [] = Inl e"
    using readTargetPairs_loop_malformed by blast
  then show "\<exists>e. readTargetPairs lines = Inl e \<and>
           (\<forall>maxsub bam_filename alignments locals0.
              readBamFile maxsub bam_filename True lines alignments locals0 = Inl e)"
    by (simp add: readBamFile_def readTargetPairs_def)
next
  assume "TargetPair_ctor inLabel leftTargetString rightTargetString = Inr tp"
  then show "want (left tp) \<or> want (right tp)"
    "\<forall>c \<in> set (seq (left tp)) \<union> set (seq (right tp)). 8 \<le> length c"
    using TargetPair_ctor_survivor by blast+
next
  assume a: "readTargetPairs lines = Inr cat"
  then have l: "readTargetPairs_loop lines [] = Inr cat"
    by (auto simp: readTargetPairs_def bindE_def split: sum.splits if_splits)
  show "\<forall>p \<in> set cat. (want (left p) \<or> want (right p)) \<and>
         (\<forall>c \<in> set (seq (left p)) \<union> set (seq (right p)). 8 \<le> length c)"
  proof
    fix p assume "p \<in> set cat"
    from readTargetPairs_loop_constructed[OF l this]
    obtain inLabel l r where "TargetPair_ctor inLabel l r = Inr p" by auto
    then show "(want (left p) \<or> want (right p)) \<and>
         (\<forall>c \<in> set (seq (left p)) \<union> set (seq (right p)). 8 \<le> length c)"
      by (rule TargetPair_ctor_survivor)
  qed
qed

theorem malformed_line_is_fatal_witness:
  "readTargetPairs_loop [''FUS'' @ [CHR 0x09] @ ''AAAACCC'' @ [CHR 0x09] @ ''GGGGTTTT''] [] =
     Inl (RuntimeError ''invalid sequence length in AAAACCC'') \<and>
   malformed (''FUS'' @ [CHR 0x09] @ ''AAAACCC'' @ [CHR 0x09] @ ''GGGGTTTT'') \<and>
   (\<exists>e. readBamFile 2 ''x.bam'' True
      [''NEG'' @ [CHR 0x09] @ ''-AAAACCCC'' @ [CHR 0x09] @ ''GGGGTTTT'',
       ''FUS'' @ [CHR 0x09] @ ''AAAACCC'' @ [CHR 0x09] @ ''GGGGTTTT'']
      [(''r1'', ''NNNGGGGTTTTNNN'')] (0, 0, 0, 0) = Inl e) \<and>
   \<not> malformed (''NEG'' @ [CHR 0x09] @ ''-AAAACCCC'' @ [CHR 0x09] @ ''GGGGTTTT'')"
proof -
  let ?bad = "''FUS'' @ [CHR 0x09] @ ''AAAACCC'' @ [CHR 0x09] @ ''GGGGTTTT''"
  let ?good = "''NEG'' @ [CHR 0x09] @ ''-AAAACCCC'' @ [CHR 0x09] @ ''GGGGTTTT''"
  have l: "readTargetPairs_loop [?bad] [] =
           Inl (RuntimeError ''invalid sequence length in AAAACCC'')" by code_simp
  have m: "malformed ?bad"
    using malformed_line_is_fatal[where line="?bad", THEN conjunct1] l by simp
  have i: "?bad \<in> set [?good, ?bad] \<and> malformed ?bad" using m by simp
  have r: "\<exists>e. readBamFile 2 ''x.bam'' True [?good, ?bad] [(''r1'', ''NNNGGGGTTTTNNN'')]
                 (0, 0, 0, 0) = Inl e"
    using malformed_line_is_fatal[where line="?bad" and lines="[?good, ?bad]",
        THEN conjunct2, THEN conjunct1, rule_format, OF i] by blast
  have g: "\<not> malformed ?good" by code_simp
  show ?thesis using l m r g by blast
qed

end
